theory Spec2Isabelle
  imports Complex_Main "HOL-Library.Word" "HOL-Library.Sublist"
begin

section \<open>Strings and values of the host language\<close>

text \<open>
  The program is TypeScript. Its strings are sequences of 16-bit code units, and both the
  regular expressions of the program (none has the \<open>u\<close> flag) and \<open>JSON.parse\<close>
  work on code units, so a string is a list of 16-bit words. \<open>js\<close> turns an
  Isabelle string literal into such a string.
\<close>

type_synonym unit16 = "16 word"
type_synonym ustring = "16 word list"

definition js :: "string \<Rightarrow> ustring" where
  "js s = map of_char s"

text \<open>
  The values the program handles: what \<open>JSON.parse\<close> returns, plus \<open>undefined\<close>.
  An object is the list of its members in the order of the text (a later member of the same
  name shadows an earlier one when the property is read). A number is kept as the exact
  value of its decimal literal; the program only ever tests a number for truthiness.
\<close>

datatype jsval =
    Undefined
  | Null
  | Bool bool
  | Num rat
  | Str ustring
  | Arr "jsval list"
  | Obj "(ustring \<times> jsval) list"

datatype err = SyntaxError | TypeError | Error ustring

text \<open>
  Truthiness, as \<open>&&\<close>, \<open>||\<close> and \<open>if\<close> test it. A number is falsy when it is
  zero as a double: a decimal literal rounds to zero exactly when its magnitude is at most
  \<open>2 ^ -1075\<close>, half of the least positive double.
\<close>

fun truthy :: "jsval \<Rightarrow> bool" where
  "truthy Undefined = False"
| "truthy Null = False"
| "truthy (Bool b) = b"
| "truthy (Num q) = (1 / 2 ^ 1075 < \<bar>q\<bar>)"
| "truthy (Str s) = (s \<noteq> [])"
| "truthy (Arr vs) = True"
| "truthy (Obj kvs) = True"

text \<open>\<open>a || b\<close> on values that are already computed.\<close>

definition jor :: "jsval \<Rightarrow> jsval \<Rightarrow> jsval" where
  "jor a b = (if truthy a then a else b)"

text \<open>
  Reading a property \<open>v.k\<close>. On \<open>null\<close> and \<open>undefined\<close> it throws a TypeError. The
  program reads only the names \<open>summary\<close>, \<open>events\<close>, \<open>barTalk\<close> and \<open>headline\<close>,
  which no built-in prototype defines, so on a primitive or an array, and on an object
  without such a member, the result is \<open>undefined\<close>.
\<close>

fun get_prop :: "jsval \<Rightarrow> ustring \<Rightarrow> err + jsval" where
  "get_prop Undefined k = Inl TypeError"
| "get_prop Null k = Inl TypeError"
| "get_prop (Obj kvs) k = (case map_of (rev kvs) k of None \<Rightarrow> Inr Undefined | Some v \<Rightarrow> Inr v)"
| "get_prop v k = Inr Undefined"

section \<open>JSON.parse\<close>

text \<open>
  The strict decoder the program calls is the built-in \<open>JSON.parse\<close>. It is modelled as
  a recursive-descent parser of the JSON grammar (ECMA-404, as ECMA-262 reads it): white
  space is tab, line feed, carriage return and space; a string may not hold a raw control
  character; a number has no leading zero and needs a digit after \<open>.\<close> and after the
  exponent mark; nothing but white space may follow the value. Every syntax error is the
  thrown \<open>SyntaxError\<close>. Limits of the engine (nesting depth, memory) are not modelled.
\<close>

definition is_json_ws :: "unit16 \<Rightarrow> bool" where
  "is_json_ws u \<longleftrightarrow> u = 0x09 \<or> u = 0x0A \<or> u = 0x0D \<or> u = 0x20"

definition skip_ws :: "ustring \<Rightarrow> ustring" where
  "skip_ws s = dropWhile is_json_ws s"

definition is_digit :: "unit16 \<Rightarrow> bool" where
  "is_digit u \<longleftrightarrow> 0x30 \<le> u \<and> u \<le> 0x39"

definition digits_val :: "ustring \<Rightarrow> nat" where
  "digits_val ds = foldl (\<lambda>n d. 10 * n + (unat d - 48)) 0 ds"

definition hex_val :: "unit16 \<Rightarrow> nat option" where
  "hex_val u =
     (if 0x30 \<le> u \<and> u \<le> 0x39 then Some (unat u - 48)
      else if 0x41 \<le> u \<and> u \<le> 0x46 then Some (unat u - 55)
      else if 0x61 \<le> u \<and> u \<le> 0x66 then Some (unat u - 87)
      else None)"

definition hex4 :: "unit16 \<Rightarrow> unit16 \<Rightarrow> unit16 \<Rightarrow> unit16 \<Rightarrow> unit16 option" where
  "hex4 a b c d =
     (case (hex_val a, hex_val b, hex_val c, hex_val d) of
        (Some x, Some y, Some z, Some w) \<Rightarrow> Some (of_nat (((x * 16 + y) * 16 + z) * 16 + w))
      | _ \<Rightarrow> None)"

text \<open>The character after a backslash: \<open>" / \ b f n r t\<close>.\<close>

definition escape_char :: "unit16 \<Rightarrow> unit16 option" where
  "escape_char e =
     (if e = 0x22 then Some 0x22
      else if e = 0x2F then Some 0x2F
      else if e = 0x5C then Some 0x5C
      else if e = 0x62 then Some 0x08
      else if e = 0x66 then Some 0x0C
      else if e = 0x6E then Some 0x0A
      else if e = 0x72 then Some 0x0D
      else if e = 0x74 then Some 0x09
      else None)"

definition consc :: "unit16 \<Rightarrow> (ustring \<times> ustring) option \<Rightarrow> (ustring \<times> ustring) option" where
  "consc u r = (case r of None \<Rightarrow> None | Some (cs, rest) \<Rightarrow> Some (u # cs, rest))"

text \<open>
  The characters of a string, read after its opening quote: the decoded string and the
  text after the closing quote.
\<close>

fun parse_chars :: "ustring \<Rightarrow> (ustring \<times> ustring) option" where
  "parse_chars [] = None"
| "parse_chars (x # t) =
     (if x = 0x22 then Some ([], t)
      else if x = 0x5C then
        (case t of
           [] \<Rightarrow> None
         | e # t' \<Rightarrow>
             if e = 0x75 then
               (case t' of
                  a # b # c # d # t'' \<Rightarrow>
                    (case hex4 a b c d of None \<Rightarrow> None | Some u \<Rightarrow> consc u (parse_chars t''))
                | _ \<Rightarrow> None)
             else (case escape_char e of None \<Rightarrow> None | Some u \<Rightarrow> consc u (parse_chars t')))
      else if x < 0x20 then None
      else consc x (parse_chars t))"

definition parse_int :: "ustring \<Rightarrow> (ustring \<times> ustring) option" where
  "parse_int s =
     (case s of
        [] \<Rightarrow> None
      | d # t \<Rightarrow>
          if d = 0x30 then Some ([d], t)
          else if is_digit d then Some (takeWhile is_digit s, dropWhile is_digit s)
          else None)"

definition parse_frac :: "ustring \<Rightarrow> (ustring \<times> ustring) option" where
  "parse_frac s =
     (case s of
        [] \<Rightarrow> Some ([], s)
      | x # t \<Rightarrow>
          if x = 0x2E then
            (if takeWhile is_digit t = [] then None
             else Some (takeWhile is_digit t, dropWhile is_digit t))
          else Some ([], s))"

definition parse_sign :: "ustring \<Rightarrow> int \<times> ustring" where
  "parse_sign s =
     (case s of
        [] \<Rightarrow> (1, s)
      | x # t \<Rightarrow> if x = 0x2D then (- 1, t) else if x = 0x2B then (1, t) else (1, s))"

definition parse_exp :: "ustring \<Rightarrow> (int \<times> ustring) option" where
  "parse_exp s =
     (case s of
        [] \<Rightarrow> Some (0, s)
      | x # t \<Rightarrow>
          if x = 0x65 \<or> x = 0x45 then
            (case parse_sign t of
               (sg, t') \<Rightarrow>
                 if takeWhile is_digit t' = [] then None
                 else Some (sg * int (digits_val (takeWhile is_digit t')), dropWhile is_digit t'))
          else Some (0, s))"

definition scale10 :: "rat \<Rightarrow> int \<Rightarrow> rat" where
  "scale10 m e = (if 0 \<le> e then m * 10 ^ nat e else m / 10 ^ nat (- e))"

definition parse_number :: "ustring \<Rightarrow> (rat \<times> ustring) option" where
  "parse_number s =
     (case (case s of [] \<Rightarrow> (False, s) | x # t \<Rightarrow> if x = 0x2D then (True, t) else (False, s)) of
        (neg, s1) \<Rightarrow>
          (case parse_int s1 of
             None \<Rightarrow> None
           | Some (ip, s2) \<Rightarrow>
               (case parse_frac s2 of
                  None \<Rightarrow> None
                | Some (fp, s3) \<Rightarrow>
                    (case parse_exp s3 of
                       None \<Rightarrow> None
                     | Some (e, s4) \<Rightarrow>
                         Some ((if neg then - 1 else 1)
                               * scale10 (of_nat (digits_val (ip @ fp))) (e - int (length fp)), s4)))))"

definition parse_literal :: "ustring \<Rightarrow> (jsval \<times> ustring) option" where
  "parse_literal s =
     (if prefix (js ''true'') s then Some (Bool True, drop 4 s)
      else if prefix (js ''false'') s then Some (Bool False, drop 5 s)
      else if prefix (js ''null'') s then Some (Null, drop 4 s)
      else (case parse_number s of None \<Rightarrow> None | Some (q, rest) \<Rightarrow> Some (Num q, rest)))"

function parse_value :: "ustring \<Rightarrow> (jsval \<times> ustring) option"
  and parse_elements :: "ustring \<Rightarrow> (jsval list \<times> ustring) option"
  and parse_members :: "ustring \<Rightarrow> ((ustring \<times> jsval) list \<times> ustring) option"
where
  "parse_value s =
     (case skip_ws s of
        [] \<Rightarrow> None
      | x # t \<Rightarrow>
          if x = 0x7B then
            (case skip_ws t of
               [] \<Rightarrow> None
             | y # t' \<Rightarrow>
                 if y = 0x7D then Some (Obj [], t')
                 else (case parse_members t of None \<Rightarrow> None | Some (kvs, r) \<Rightarrow> Some (Obj kvs, r)))
          else if x = 0x5B then
            (case skip_ws t of
               [] \<Rightarrow> None
             | y # t' \<Rightarrow>
                 if y = 0x5D then Some (Arr [], t')
                 else (case parse_elements t of None \<Rightarrow> None | Some (vs, r) \<Rightarrow> Some (Arr vs, r)))
          else if x = 0x22 then
            (case parse_chars t of None \<Rightarrow> None | Some (cs, r) \<Rightarrow> Some (Str cs, r))
          else parse_literal (x # t))"
| "parse_elements s =
     (case parse_value s of
        None \<Rightarrow> None
      | Some (v, r) \<Rightarrow>
          (case skip_ws r of
             [] \<Rightarrow> None
           | y # r' \<Rightarrow>
               if y = 0x2C then
                 (case parse_elements r' of None \<Rightarrow> None | Some (vs, r'') \<Rightarrow> Some (v # vs, r''))
               else if y = 0x5D then Some ([v], r')
               else None))"
| "parse_members s =
     (case skip_ws s of
        [] \<Rightarrow> None
      | x # t \<Rightarrow>
          if x = 0x22 then
            (case parse_chars t of
               None \<Rightarrow> None
             | Some (k, r) \<Rightarrow>
                 (case skip_ws r of
                    [] \<Rightarrow> None
                  | y # r1 \<Rightarrow>
                      if y = 0x3A then
                        (case parse_value r1 of
                           None \<Rightarrow> None
                         | Some (v, r2) \<Rightarrow>
                             (case skip_ws r2 of
                                [] \<Rightarrow> None
                              | z # r3 \<Rightarrow>
                                  if z = 0x2C then
                                    (case parse_members r3 of
                                       None \<Rightarrow> None
                                     | Some (kvs, r4) \<Rightarrow> Some ((k, v) # kvs, r4))
                                  else if z = 0x7D then Some ([(k, v)], r3)
                                  else None))
                      else None))
          else None)"
  by pat_completeness auto

text \<open>Every parser consumes input; that is the termination argument of the descent.\<close>

lemma length_skip_ws: "length (skip_ws s) \<le> length s"
  by (simp add: skip_ws_def length_dropWhile_le)

lemma skip_ws_Cons: "skip_ws s = x # t \<Longrightarrow> length t < length s"
  using length_skip_ws [of s] by simp

lemma parse_chars_shorter: "parse_chars s = Some (cs, r) \<Longrightarrow> length r < length s"
  by (induction s arbitrary: cs r rule: parse_chars.induct)
     (fastforce simp: consc_def split: if_splits option.splits list.splits)+

lemma length_dropWhile_less: "length (dropWhile P t) < Suc (length t)"
  using length_dropWhile_le [of P t] by simp

lemma parse_int_shorter: "parse_int s = Some (ip, r) \<Longrightarrow> length r < length s"
  by (cases s) (auto simp: parse_int_def length_dropWhile_less split: if_splits)

lemma parse_frac_le: "parse_frac s = Some (fp, r) \<Longrightarrow> length r \<le> length s"
  by (cases s) (auto simp: parse_frac_def le_SucI length_dropWhile_le split: if_splits)

lemma parse_sign_le: "parse_sign s = (sg, r) \<Longrightarrow> length r \<le> length s"
  by (cases s) (auto simp: parse_sign_def split: if_splits)

lemma parse_exp_le: "parse_exp s = Some (e, r) \<Longrightarrow> length r \<le> length s"
proof (cases s)
  case Nil
  assume "parse_exp s = Some (e, r)"
  with Nil show ?thesis by (simp add: parse_exp_def)
next
  case (Cons x t)
  assume a: "parse_exp s = Some (e, r)"
  obtain sg t' where sg: "parse_sign t = (sg, t')" by (cases "parse_sign t")
  have "length t' \<le> length t" using sg by (rule parse_sign_le)
  moreover have "length (dropWhile is_digit t') \<le> length t'" by (rule length_dropWhile_le)
  ultimately show ?thesis
    using a Cons sg by (auto simp: parse_exp_def split: if_splits)
qed

lemma parse_number_shorter:
  assumes "parse_number s = Some (q, r)"
  shows "length r < length s"
proof -
  define s1 where
    "s1 = snd (case s of [] \<Rightarrow> (False, s) | x # t \<Rightarrow> if x = 0x2D then (True, t) else (False, s))"
  have s1: "length s1 \<le> length s"
    by (cases s) (auto simp: s1_def)
  from assms obtain ip s2 fp s3 e where
    "parse_int s1 = Some (ip, s2)" "parse_frac s2 = Some (fp, s3)" "parse_exp s3 = Some (e, r)"
    unfolding parse_number_def s1_def
    by (auto split: prod.splits option.splits)
  then show ?thesis
    using s1 parse_int_shorter parse_frac_le parse_exp_le
    by (meson le_trans less_le_trans le_less_trans)
qed

lemma parse_literal_shorter: "parse_literal s = Some (v, r) \<Longrightarrow> length r < length s"
  unfolding parse_literal_def
  by (auto simp: js_def prefix_def split: if_splits option.splits dest: parse_number_shorter)

lemma parse_partial_shorter:
  "parse_value_parse_elements_parse_members_dom (Inl s) \<Longrightarrow>
      parse_value s = Some (v, r) \<Longrightarrow> length r < length s"
  "parse_value_parse_elements_parse_members_dom (Inr (Inl s1)) \<Longrightarrow>
      parse_elements s1 = Some (vs, r1) \<Longrightarrow> length r1 < length s1"
  "parse_value_parse_elements_parse_members_dom (Inr (Inr s2)) \<Longrightarrow>
      parse_members s2 = Some (kvs, r2) \<Longrightarrow> length r2 < length s2"
proof (induction s and s1 and s2 arbitrary: v r and vs r1 and kvs r2
        rule: parse_value_parse_elements_parse_members.pinduct)
  case (1 s)
  from "1.prems" "1.IH" show ?case
    by (simp add: parse_value.psimps [OF "1.hyps"])
       (fastforce split: list.splits if_splits option.splits
          dest!: skip_ws_Cons parse_chars_shorter parse_literal_shorter)
next
  case (2 s)
  from "2.prems" "2.IH" show ?case
    by (simp add: parse_elements.psimps [OF "2.hyps"])
       (fastforce split: list.splits if_splits option.splits dest!: skip_ws_Cons)
next
  case (3 s)
  from "3.prems" "3.IH" show ?case
    by (simp add: parse_members.psimps [OF "3.hyps"])
       (fastforce split: list.splits if_splits option.splits
          dest!: skip_ws_Cons parse_chars_shorter)
qed

termination parse_value
proof (relation "measure (\<lambda>x. case x of Inl s \<Rightarrow> 2 * length s
                                    | Inr (Inl s) \<Rightarrow> 2 * length s + 1
                                    | Inr (Inr s) \<Rightarrow> 2 * length s)", goal_cases)
  case 1
  show ?case by simp
next
  case (2 s x t y t')
  then show ?case by (auto dest!: skip_ws_Cons)
next
  case (3 s x t y t')
  then show ?case by (auto dest!: skip_ws_Cons)
next
  case (4 s)
  then show ?case by simp
next
  case (5 s x2 v r y r')
  then show ?case by (auto dest!: skip_ws_Cons parse_partial_shorter(1))
next
  case (6 s x t x2 k r y r1)
  then show ?case by (auto dest!: skip_ws_Cons parse_chars_shorter)
next
  case (7 s x t x2 k r y r1 x2a v r2 z r3)
  then show ?case by (auto dest!: skip_ws_Cons parse_chars_shorter parse_partial_shorter(1))
qed

text \<open>
  The equations of the descent are unfolded on request only: each one is unconditional and
  mentions the parsers again.
\<close>

declare parse_value.simps [simp del] parse_elements.simps [simp del] parse_members.simps [simp del]

definition JSON_parse :: "ustring \<Rightarrow> err + jsval" where
  "JSON_parse text =
     (case parse_value text of
        None \<Rightarrow> Inl SyntaxError
      | Some (v, r) \<Rightarrow> if skip_ws r = [] then Inr v else Inl SyntaxError)"

section \<open>Regular expressions\<close>

text \<open>
  The patterns of the program use literals, character classes, \<open>*\<close> and \<open>*?\<close>,
  one capture group, \<open>|\<close> and \<open>$\<close>. \<open>ms r c s\<close> is the backtracking matcher at
  the start of \<open>s\<close>: every way \<open>r\<close> can match a prefix of \<open>s\<close>, as the captures and the
  text left over, in the order in which a backtracking engine tries them, so the head of
  the list is the match the engine reports. \<open>Star True\<close> is the greedy \<open>*\<close>,
  \<open>Star False\<close> the lazy \<open>*?\<close>. As in ECMA-262, an iteration of a star that consumes
  nothing is rejected, and the groups inside a star are reset when an iteration starts.
  \<open>Eoi\<close> is \<open>$\<close> without the \<open>m\<close> flag: the end of the input.
\<close>

type_synonym caps = "nat \<Rightarrow> ustring option"

datatype regex =
    Lit ustring
  | Cls "unit16 \<Rightarrow> bool"
  | Eoi
  | Seq regex regex
  | Alt regex regex
  | Star bool regex
  | Grp nat regex

fun grps :: "regex \<Rightarrow> nat list" where
  "grps (Lit k) = []"
| "grps (Cls P) = []"
| "grps Eoi = []"
| "grps (Seq a b) = grps a @ grps b"
| "grps (Alt a b) = grps a @ grps b"
| "grps (Star g a) = grps a"
| "grps (Grp i a) = i # grps a"

definition clear :: "nat list \<Rightarrow> caps \<Rightarrow> caps" where
  "clear is c = (\<lambda>i. if i \<in> set is then None else c i)"

function ms :: "regex \<Rightarrow> caps \<Rightarrow> ustring \<Rightarrow> (caps \<times> ustring) list" where
  "ms (Lit k) c s = (if prefix k s then [(c, drop (length k) s)] else [])"
| "ms (Cls P) c s = (case s of [] \<Rightarrow> [] | x # t \<Rightarrow> if P x then [(c, t)] else [])"
| "ms Eoi c s = (if s = [] then [(c, s)] else [])"
| "ms (Seq a b) c s = concat (map (\<lambda>(c', s'). ms b c' s') (ms a c s))"
| "ms (Alt a b) c s = ms a c s @ ms b c s"
| "ms (Grp i a) c s =
     map (\<lambda>(c', s'). (c'(i \<mapsto> take (length s - length s') s), s')) (ms a c s)"
| "ms (Star g a) c s =
     (let more = concat (map (\<lambda>(c', s'). if length s' < length s then ms (Star g a) c' s' else [])
                             (ms a (clear (grps a) c) s))
      in if g then more @ [(c, s)] else (c, s) # more)"
  by pat_completeness auto
termination
  by (relation "measures [\<lambda>(r, c, s). size r, \<lambda>(r, c, s). length s]") auto

declare ms.simps(7) [simp del]

text \<open>
  \<open>first_match r s\<close> is the match of \<open>r\<close> at the start of \<open>s\<close> that the engine reports:
  the matched text and the captures.
\<close>

definition first_match :: "regex \<Rightarrow> ustring \<Rightarrow> (ustring \<times> caps) option" where
  "first_match r s =
     (case ms r (\<lambda>i. None) s of
        [] \<Rightarrow> None
      | (c, rest) # _ \<Rightarrow> Some (take (length s - length rest) s, c))"

text \<open>
  \<open>s.match(r)\<close> for a pattern without the \<open>g\<close> flag: the leftmost match, \<open>None\<close> for
  \<open>null\<close>.
\<close>

fun str_match :: "regex \<Rightarrow> ustring \<Rightarrow> (ustring \<times> caps) option" where
  "str_match r [] = first_match r []"
| "str_match r (x # t) =
     (case first_match r (x # t) of None \<Rightarrow> str_match r t | Some m \<Rightarrow> Some m)"

text \<open>\<open>m[i]\<close> for a group \<open>i\<close>: \<open>undefined\<close> when the group took no part in the match.\<close>

definition group :: "ustring \<times> caps \<Rightarrow> nat \<Rightarrow> jsval" where
  "group m i = (case snd m i of None \<Rightarrow> Undefined | Some g \<Rightarrow> Str g)"

text \<open>
  \<open>s.match(r)\<close> for a pattern with the \<open>g\<close> flag, followed by \<open>|| []\<close>: the matched
  texts from left to right. After a match the scan resumes where the match ended, one
  code unit further when the match was empty; \<open>skip\<close> counts the code units of the last
  match still to be passed.
\<close>

fun str_match_all_from :: "regex \<Rightarrow> nat \<Rightarrow> ustring \<Rightarrow> ustring list" where
  "str_match_all_from r skip [] =
     (if skip = 0 then (case first_match r [] of None \<Rightarrow> [] | Some (m, c) \<Rightarrow> [m]) else [])"
| "str_match_all_from r skip (x # t) =
     (if 0 < skip then str_match_all_from r (skip - 1) t
      else (case first_match r (x # t) of
              None \<Rightarrow> str_match_all_from r 0 t
            | Some (m, c) \<Rightarrow> m # str_match_all_from r (length m - 1) t))"

definition str_match_all :: "regex \<Rightarrow> ustring \<Rightarrow> ustring list" where
  "str_match_all r s = str_match_all_from r 0 s"

text \<open>\<open>s.replace(r, rep)\<close> for a pattern with the \<open>g\<close> flag and a replacement without \<open>$\<close>.\<close>

fun str_replace_all_from :: "regex \<Rightarrow> ustring \<Rightarrow> nat \<Rightarrow> ustring \<Rightarrow> ustring" where
  "str_replace_all_from r rep skip [] =
     (if skip = 0 then (case first_match r [] of None \<Rightarrow> [] | Some (m, c) \<Rightarrow> rep) else [])"
| "str_replace_all_from r rep skip (x # t) =
     (if 0 < skip then str_replace_all_from r rep (skip - 1) t
      else (case first_match r (x # t) of
              None \<Rightarrow> x # str_replace_all_from r rep 0 t
            | Some (m, c) \<Rightarrow>
                if m = [] then rep @ x # str_replace_all_from r rep 0 t
                else rep @ str_replace_all_from r rep (length m - 1) t))"

definition str_replace_all :: "regex \<Rightarrow> ustring \<Rightarrow> ustring \<Rightarrow> ustring" where
  "str_replace_all r rep s = str_replace_all_from r rep 0 s"

subsection \<open>The patterns of the program\<close>

text \<open>
  \<open>\s\<close> is the white space and the line terminators of ECMA-262; \<open>.\<close> is any code unit
  but a line terminator; \<open>[\s\S]\<close> is any code unit.
\<close>

definition is_space :: "unit16 \<Rightarrow> bool" where
  "is_space u \<longleftrightarrow>
     u = 0x09 \<or> u = 0x0A \<or> u = 0x0B \<or> u = 0x0C \<or> u = 0x0D \<or> u = 0x20 \<or> u = 0xA0 \<or>
     u = 0x1680 \<or> (0x2000 \<le> u \<and> u \<le> 0x200A) \<or> u = 0x2028 \<or> u = 0x2029 \<or>
     u = 0x202F \<or> u = 0x205F \<or> u = 0x3000 \<or> u = 0xFEFF"

definition dot :: "unit16 \<Rightarrow> bool" where
  "dot u \<longleftrightarrow> u \<noteq> 0x0A \<and> u \<noteq> 0x0D \<and> u \<noteq> 0x2028 \<and> u \<noteq> 0x2029"

definition any_unit :: "unit16 \<Rightarrow> bool" where
  "any_unit u \<longleftrightarrow> True"

definition not_quote :: "unit16 \<Rightarrow> bool" where
  "not_quote u \<longleftrightarrow> u \<noteq> 0x22"

definition not_rbrace :: "unit16 \<Rightarrow> bool" where
  "not_rbrace u \<longleftrightarrow> u \<noteq> 0x7D"

fun seqs :: "regex list \<Rightarrow> regex" where
  "seqs [] = Lit []"
| "seqs [r] = r"
| "seqs (r # rs) = Seq r (seqs rs)"

text \<open>\<open>[^"]*(?:\\.[^"]*)*\<close>, the body the program uses for a quoted string.\<close>

definition quoted_body :: regex where
  "quoted_body =
     Seq (Star True (Cls not_quote))
         (Star True (seqs [Lit [0x5C], Cls dot, Star True (Cls not_quote)]))"

text \<open>\<open>"key"\s*:\s*"([^"]*(?:\\.[^"]*)*)"\<close>, for the keys summary, headline and description.\<close>

definition string_field :: "ustring \<Rightarrow> regex" where
  "string_field key =
     seqs [Lit (0x22 # key @ [0x22]), Star True (Cls is_space), Lit (js '':''),
           Star True (Cls is_space), Lit [0x22], Grp 1 quoted_body, Lit [0x22]]"

text \<open>\<open>"key"\s*:\s*"([^"]*)"\<close>, for the keys category and significance.\<close>

definition plain_field :: "ustring \<Rightarrow> regex" where
  "plain_field key =
     seqs [Lit (0x22 # key @ [0x22]), Star True (Cls is_space), Lit (js '':''),
           Star True (Cls is_space), Lit [0x22], Grp 1 (Star True (Cls not_quote)), Lit [0x22]]"

text \<open>\<open>"key"\s*:\s*\[([\s\S]*?)(?:\]|$)\<close>, for the keys events and barTalk.\<close>

definition array_field :: "ustring \<Rightarrow> regex" where
  "array_field key =
     seqs [Lit (0x22 # key @ [0x22]), Star True (Cls is_space), Lit (js '':''),
           Star True (Cls is_space), Lit (js ''[''), Grp 1 (Star False (Cls any_unit)),
           Alt (Lit (js '']'')) Eoi]"

text \<open>\<open>\{[^}]*"headline"[^}]*\}\<close>, a complete-looking event object.\<close>

definition event_re :: regex where
  "event_re =
     seqs [Lit (js ''{''), Star True (Cls not_rbrace), Lit (0x22 # js ''headline'' @ [0x22]),
           Star True (Cls not_rbrace), Lit (js ''}'')]"

text \<open>\<open>"([^"]*(?:\\.[^"]*)*)"\<close>, a quoted string of the barTalk array.\<close>

definition quoted_re :: regex where
  "quoted_re = seqs [Lit [0x22], Grp 1 quoted_body, Lit [0x22]]"

text \<open>\<open>v.replace(/\\"/g, '"')\<close>; on a value that is not a string the call throws.\<close>

definition replace_quotes :: "jsval \<Rightarrow> err + jsval" where
  "replace_quotes v =
     (case v of
        Str s \<Rightarrow> Inr (Str (str_replace_all (Lit [0x5C, 0x22]) [0x22] s))
      | _ \<Rightarrow> Inl TypeError)"

section \<open>The Recoverer: tryParsePartialJSON\<close>

text \<open>
  A computation that may throw returns \<open>err + 'a\<close>, \<open>Inl\<close> for the exception.
  \<open>try_map f xs\<close> is \<open>xs.map(f)\<close> for a callback that may throw.
\<close>

fun try_map :: "('a \<Rightarrow> err + 'b) \<Rightarrow> 'a list \<Rightarrow> err + 'b list" where
  "try_map f [] = Inr []"
| "try_map f (x # xs) =
     (case f x of
        Inl e \<Rightarrow> Inl e
      | Inr y \<Rightarrow> (case try_map f xs of Inl e \<Rightarrow> Inl e | Inr ys \<Rightarrow> Inr (y # ys)))"

text \<open>Lines 32 and 33: the summary, \<open>undefined\<close> when the pattern finds none.\<close>

definition extract_summary :: "ustring \<Rightarrow> err + jsval" where
  "extract_summary text =
     (case str_match (string_field (js ''summary'')) text of
        None \<Rightarrow> Inr Undefined
      | Some summaryMatch \<Rightarrow> replace_quotes (group summaryMatch 1))"

text \<open>\<open>m?.[1]\<close> and \<open>m?.[1].replace(/\\"/g, '"')\<close> for the result \<open>m\<close> of a match.\<close>

definition opt_group :: "(ustring \<times> caps) option \<Rightarrow> jsval" where
  "opt_group m = (case m of None \<Rightarrow> Undefined | Some mm \<Rightarrow> group mm 1)"

definition opt_group_replaced :: "(ustring \<times> caps) option \<Rightarrow> err + jsval" where
  "opt_group_replaced m =
     (case m of None \<Rightarrow> Inr Undefined | Some mm \<Rightarrow> replace_quotes (group mm 1))"

text \<open>Lines 47 to 58: the fields of an event object that does not decode, one by one.\<close>

definition fallback_event :: "ustring \<Rightarrow> err + jsval" where
  "fallback_event eventStr =
     (let categoryMatch = str_match (plain_field (js ''category'')) eventStr;
          headlineMatch = str_match (string_field (js ''headline'')) eventStr;
          descriptionMatch = str_match (string_field (js ''description'')) eventStr;
          significanceMatch = str_match (plain_field (js ''significance'')) eventStr
      in case opt_group_replaced headlineMatch of
           Inl e \<Rightarrow> Inl e
         | Inr headline \<Rightarrow>
             (case opt_group_replaced descriptionMatch of
                Inl e \<Rightarrow> Inl e
              | Inr description \<Rightarrow>
                  Inr (Obj [(js ''category'', jor (opt_group categoryMatch) (Str (js ''Other''))),
                            (js ''headline'', jor headline (Str (js ''Loading...''))),
                            (js ''description'', jor description (Str (js ''Loading...''))),
                            (js ''significance'',
                               jor (opt_group significanceMatch) (Str (js ''Medium'')))])))"

text \<open>Lines 43 to 59: the callback of \<open>map\<close>, a strict decode of the span with the fallback.\<close>

definition event_of :: "ustring \<Rightarrow> err + jsval" where
  "event_of eventStr =
     (case JSON_parse eventStr of Inr v \<Rightarrow> Inr v | Inl e \<Rightarrow> fallback_event eventStr)"

text \<open>Line 60: \<open>.filter(event => event.headline !== 'Loading...')\<close>.\<close>

fun filter_events :: "jsval list \<Rightarrow> err + jsval list" where
  "filter_events [] = Inr []"
| "filter_events (event # evs) =
     (case get_prop event (js ''headline'') of
        Inl e \<Rightarrow> Inl e
      | Inr h \<Rightarrow>
          (case filter_events evs of
             Inl e \<Rightarrow> Inl e
           | Inr kept \<Rightarrow> Inr (if h \<noteq> Str (js ''Loading...'') then event # kept else kept)))"

text \<open>Lines 36 to 61: the events, the empty array when the key has not appeared.\<close>

definition extract_events :: "ustring \<Rightarrow> err + jsval list" where
  "extract_events text =
     (case str_match (array_field (js ''events'')) text of
        None \<Rightarrow> Inr []
      | Some eventsMatch \<Rightarrow>
          (case group eventsMatch 1 of
             Str eventsStr \<Rightarrow>
               (case try_map event_of (str_match_all event_re eventsStr) of
                  Inl e \<Rightarrow> Inl e
                | Inr evs \<Rightarrow> filter_events evs)
           | _ \<Rightarrow> Inl TypeError))"

text \<open>
  Lines 64 to 71: the barTalk strings; \<open>match.slice(1, -1)\<close> drops the first and the last
  code unit of a matched text.
\<close>

definition extract_barTalk :: "ustring \<Rightarrow> err + jsval list" where
  "extract_barTalk text =
     (case str_match (array_field (js ''barTalk'')) text of
        None \<Rightarrow> Inr []
      | Some barTalkMatch \<Rightarrow>
          (case group barTalkMatch 1 of
             Str barTalkStr \<Rightarrow>
               Inr (map (\<lambda>m. Str (str_replace_all (Lit [0x5C, 0x22]) [0x22] (butlast (tl m))))
                        (str_match_all quoted_re barTalkStr))
           | _ \<Rightarrow> Inl TypeError))"

text \<open>Lines 31 to 73: the body of the inner \<open>try\<close>.\<close>

definition salvage :: "ustring \<Rightarrow> err + jsval" where
  "salvage text =
     (case extract_summary text of
        Inl e \<Rightarrow> Inl e
      | Inr summary \<Rightarrow>
          (case extract_events text of
             Inl e \<Rightarrow> Inl e
           | Inr events \<Rightarrow>
               (case extract_barTalk text of
                  Inl e \<Rightarrow> Inl e
                | Inr barTalk \<Rightarrow>
                    Inr (Obj [(js ''summary'', summary), (js ''events'', Arr events),
                              (js ''barTalk'', Arr barTalk)]))))"

text \<open>
  Lines 24 to 78: the strict decode, returned as it is; when it throws, the salvage; when
  that throws, \<open>null\<close>.
\<close>

definition tryParsePartialJSON :: "ustring \<Rightarrow> err + jsval" where
  "tryParsePartialJSON text =
     (case JSON_parse text of
        Inr v \<Rightarrow> Inr v
      | Inl e \<Rightarrow> (case salvage text of Inr v \<Rightarrow> Inr v | Inl e' \<Rightarrow> Inr Null))"

section \<open>The end of the stream in handleSportsSearch\<close>

text \<open>
  Line 156, the condition
  \<open>finalParsed && finalParsed.summary && finalParsed.events && finalParsed.barTalk\<close>,
  tested for truthiness; \<open>&&\<close> reads a property only when what stands before it is truthy.
\<close>

definition complete :: "jsval \<Rightarrow> err + bool" where
  "complete finalParsed =
     (if \<not> truthy finalParsed then Inr False
      else case get_prop finalParsed (js ''summary'') of
             Inl e \<Rightarrow> Inl e
           | Inr summary \<Rightarrow>
               if \<not> truthy summary then Inr False
               else (case get_prop finalParsed (js ''events'') of
                       Inl e \<Rightarrow> Inl e
                     | Inr events \<Rightarrow>
                         if \<not> truthy events then Inr False
                         else (case get_prop finalParsed (js ''barTalk'') of
                                 Inl e \<Rightarrow> Inl e
                               | Inr barTalk \<Rightarrow> Inr (truthy barTalk))))"

text \<open>
  Lines 154 to 161 of \<open>handleSportsSearch\<close>, from the text accumulated when the stream has
  ended: \<open>Inr v\<close> is \<open>setSportsNews(v)\<close>, \<open>Inl e\<close> is the exception thrown to the
  handler's \<open>catch\<close>. The transport and the user interface state are outside the model.
\<close>

definition handleSportsSearch_final :: "ustring \<Rightarrow> err + jsval" where
  "handleSportsSearch_final accumulatedText =
     (case tryParsePartialJSON accumulatedText of
        Inl e \<Rightarrow> Inl e
      | Inr finalParsed \<Rightarrow>
          (case complete finalParsed of
             Inl e \<Rightarrow> Inl e
           | Inr ok \<Rightarrow>
               if ok then Inr finalParsed
               else Inl (Error (js ''Failed to parse complete structured response''))))"

text \<open>
  A member of the recovered value is present when reading it gives a value other than
  \<open>undefined\<close> and \<open>null\<close>; an empty array is present.
\<close>

definition present :: "jsval \<Rightarrow> ustring \<Rightarrow> bool" where
  "present v k \<longleftrightarrow> (case get_prop v k of Inl e \<Rightarrow> False | Inr x \<Rightarrow> x \<noteq> Undefined \<and> x \<noteq> Null)"

section \<open>Balanced brace spans\<close>

text \<open>
  The statement on incomplete events speaks of balanced spans \<open>{...}\<close> that hold the key
  \<open>headline\<close>; the program has no such notion, it uses the pattern \<open>event_re\<close>.
  \<open>span_end d t\<close> is the text up to the closing brace that brings the brace depth
  \<open>d\<close> back below zero, \<open>balanced_spans\<close> lists, for every opening brace of a text,
  the span from it to its matching closing brace, when the text has one.
\<close>

fun span_end :: "nat \<Rightarrow> ustring \<Rightarrow> ustring option" where
  "span_end d [] = None"
| "span_end d (u # t) =
     (if u = 0x7D then (if d = 0 then Some [u] else map_option ((#) u) (span_end (d - 1) t))
      else if u = 0x7B then map_option ((#) u) (span_end (Suc d) t)
      else map_option ((#) u) (span_end d t))"

fun balanced_spans :: "ustring \<Rightarrow> ustring list" where
  "balanced_spans [] = []"
| "balanced_spans (u # t) =
     (if u = 0x7B then (case span_end 0 t of None \<Rightarrow> [] | Some x \<Rightarrow> [u # x]) else []) @
     balanced_spans t"

text \<open>The balanced spans that hold the quoted key \<open>headline\<close>.\<close>

definition complete_event_objects :: "ustring \<Rightarrow> ustring list" where
  "complete_event_objects text =
     filter (sublist (0x22 # js ''headline'' @ [0x22])) (balanced_spans text)"

section \<open>Documents and their serialised texts\<close>

text \<open>
  The statement on the summary of a prefix speaks of a document that conforms to the types
  \<open>SportsNews\<close> and \<open>SportsEvent\<close> of lines 6 to 21, and of its serialised text. Such a
  document is made of strings, arrays and objects only. An object keeps its members in the
  order in which they are written.
\<close>

datatype doc = DStr ustring | DArr "doc list" | DObj "(ustring \<times> doc) list"

text \<open>The value \<open>JSON.parse\<close> gives for the text of a document.\<close>

primrec value_of :: "doc \<Rightarrow> jsval" where
  "value_of (DStr s) = Str s"
| "value_of (DArr vs) = Arr (map value_of vs)"
| "value_of (DObj kvs) = Obj (map (map_prod id value_of) kvs)"

text \<open>\<open>string\<close> and \<open>string[]\<close>.\<close>

fun is_str :: "doc \<Rightarrow> bool" where
  "is_str (DStr s) = True"
| "is_str v = False"

fun is_strs :: "doc \<Rightarrow> bool" where
  "is_strs (DArr vs) = list_all is_str vs"
| "is_strs v = False"

text \<open>
  The type \<open>SportsEvent\<close>, lines 6 to 15: the members \<open>category\<close>, \<open>headline\<close>,
  \<open>description\<close> and \<open>significance\<close>, the optional members \<open>teams\<close>, \<open>date\<close>,
  \<open>source\<close> and \<open>links\<close>, no other member and no member twice.
\<close>

fun event_member :: "ustring \<times> doc \<Rightarrow> bool" where
  "event_member (k, v) =
     (if k = js ''category'' then
        v \<in> set (map DStr [js ''NFL'', js ''College Football'', js ''NBA'', js ''MLB'', js ''NHL'',
                            js ''Tennis'', js ''Soccer'', js ''Other''])
      else if k = js ''significance'' then
        v \<in> set (map DStr [js ''High'', js ''Medium'', js ''Low''])
      else if k \<in> set [js ''headline'', js ''description'', js ''date'', js ''source''] then is_str v
      else if k \<in> set [js ''teams'', js ''links''] then is_strs v
      else False)"

fun SportsEvent :: "doc \<Rightarrow> bool" where
  "SportsEvent (DObj fs) \<longleftrightarrow>
     distinct (map fst fs) \<and> list_all event_member fs \<and>
     set [js ''category'', js ''headline'', js ''description'', js ''significance'']
       \<subseteq> set (map fst fs)"
| "SportsEvent v \<longleftrightarrow> False"

text \<open>The type \<open>SportsNews\<close>, lines 17 to 21, with the three members in any order.\<close>

fun news_member :: "ustring \<times> doc \<Rightarrow> bool" where
  "news_member (k, v) =
     (if k = js ''events'' then (case v of DArr es \<Rightarrow> list_all SportsEvent es | _ \<Rightarrow> False)
      else if k = js ''summary'' then is_str v
      else if k = js ''barTalk'' then is_strs v
      else False)"

fun SportsNews :: "doc \<Rightarrow> bool" where
  "SportsNews (DObj kvs) \<longleftrightarrow>
     distinct (map fst kvs) \<and> list_all news_member kvs \<and>
     set [js ''events'', js ''summary'', js ''barTalk''] \<subseteq> set (map fst kvs)"
| "SportsNews v \<longleftrightarrow> False"

text \<open>
  The characters of a string between its quotes, as \<open>JSON.stringify\<close> writes them: a
  backslash before a quote and before a backslash, the short escapes \<open>\b \f \n \r \t\<close>,
  \<open>\u00XX\<close> for the other control characters, every other code unit as it is.
\<close>

definition hex_digit :: "nat \<Rightarrow> unit16" where
  "hex_digit n = js ''0123456789abcdef'' ! n"

definition esc_unit :: "unit16 \<Rightarrow> ustring" where
  "esc_unit u =
     (if u = 0x22 then [0x5C, 0x22]
      else if u = 0x5C then [0x5C, 0x5C]
      else if u = 0x08 then [0x5C, 0x62]
      else if u = 0x0C then [0x5C, 0x66]
      else if u = 0x0A then [0x5C, 0x6E]
      else if u = 0x0D then [0x5C, 0x72]
      else if u = 0x09 then [0x5C, 0x74]
      else if u < 0x20 then
        [0x5C, 0x75, 0x30, 0x30, hex_digit (unat u div 16), hex_digit (unat u mod 16)]
      else [u])"

definition esc :: "ustring \<Rightarrow> ustring" where
  "esc s = concat (map esc_unit s)"

definition quoted :: "ustring \<Rightarrow> ustring" where
  "quoted s = 0x22 # esc s @ [0x22]"

text \<open>
  The white space of a text. ECMA-404 allows white space before and after every value,
  before and after every key, and inside an empty array or object. \<open>lay p r\<close> is the white
  space at the place \<open>r\<close> of the node that the path \<open>p\<close> leads to, a path being the list
  of the member and element indices from the root: place 0 is before the value, 1 after it,
  2 before the key of the member, 3 after that key, 4 inside the value when it is an empty
  array or object.
\<close>

type_synonym layout = "nat list \<Rightarrow> nat \<Rightarrow> ustring"

definition layout_ok :: "layout \<Rightarrow> bool" where
  "layout_ok lay \<longleftrightarrow> (\<forall>p r. \<forall>u\<in>set (lay p r). is_json_ws u)"

text \<open>
  The text of a document under a layout: \<open>text_of\<close> for the value at the path \<open>p\<close>,
  \<open>elements\<close> and \<open>members\<close> for the elements and members from the index \<open>i\<close> on,
  separated by commas, and \<open>stringify\<close> for the whole text.
\<close>

fun text_of :: "layout \<Rightarrow> nat list \<Rightarrow> doc \<Rightarrow> ustring"
  and elements :: "layout \<Rightarrow> nat list \<Rightarrow> nat \<Rightarrow> doc list \<Rightarrow> ustring"
  and members :: "layout \<Rightarrow> nat list \<Rightarrow> nat \<Rightarrow> (ustring \<times> doc) list \<Rightarrow> ustring"
where
  "text_of lay p (DStr s) = quoted s"
| "text_of lay p (DArr vs) = 0x5B # (if vs = [] then lay p 4 else elements lay p 0 vs) @ [0x5D]"
| "text_of lay p (DObj kvs) = 0x7B # (if kvs = [] then lay p 4 else members lay p 0 kvs) @ [0x7D]"
| "elements lay p i [] = []"
| "elements lay p i (v # vs) =
     lay (p @ [i]) 0 @ text_of lay (p @ [i]) v @ lay (p @ [i]) 1 @
     (if vs = [] then [] else 0x2C # elements lay p (Suc i) vs)"
| "members lay p i [] = []"
| "members lay p i ((k, v) # kvs) =
     lay (p @ [i]) 2 @ quoted k @ lay (p @ [i]) 3 @
     0x3A # lay (p @ [i]) 0 @ text_of lay (p @ [i]) v @ lay (p @ [i]) 1 @
     (if kvs = [] then [] else 0x2C # members lay p (Suc i) kvs)"

definition stringify :: "layout \<Rightarrow> doc \<Rightarrow> ustring" where
  "stringify lay D = lay [] 0 @ text_of lay [] D @ lay [] 1"

text \<open>
  The text of a document from its start to the closing quote of the value of
  \<open>summary\<close>, for the members \<open>before\<close> that are written before \<open>summary\<close>.
\<close>

definition through_summary :: "layout \<Rightarrow> (ustring \<times> doc) list \<Rightarrow> ustring \<Rightarrow> ustring" where
  "through_summary lay before s =
     lay [] 0 @ 0x7B # (if before = [] then [] else members lay [] 0 before @ [0x2C]) @
     lay [length before] 2 @ quoted (js ''summary'') @ lay [length before] 3 @
     0x3A # lay [length before] 0 @ quoted s"

text \<open>
  Where the pattern for the summary can match. \<open>hit t\<close>: the text \<open>t\<close> starts with the
  quoted key \<open>summary\<close>, white space and a colon. \<open>clean x z\<close>: no position of \<open>x\<close>,
  in the text \<open>x\<close> followed by \<open>z\<close>, is a hit.
\<close>

definition hit :: "ustring \<Rightarrow> bool" where
  "hit t \<longleftrightarrow> (\<exists>w r. t = (0x22 # js ''summary'' @ [0x22]) @ w @ 0x3A # r \<and> (\<forall>u\<in>set w. is_space u))"

definition clean :: "ustring \<Rightarrow> ustring \<Rightarrow> bool" where
  "clean x z \<longleftrightarrow> (\<forall>i<length x. \<not> hit (drop i x @ z))"

text \<open>What follows a value in a text: white space, then a comma or a closing bracket or brace.\<close>

definition fol :: "ustring \<Rightarrow> bool" where
  "fol z \<longleftrightarrow> (\<exists>w u y. z = w @ u # y \<and> (\<forall>x\<in>set w. is_json_ws x) \<and> (u = 0x2C \<or> u = 0x5D \<or> u = 0x7D))"

text \<open>Every quote of the text, but for a quote at its start, stands after a backslash.\<close>

fun bq :: "ustring \<Rightarrow> bool" where
  "bq [] = True"
| "bq [x] = True"
| "bq (x # y # t) = ((y = 0x22 \<longrightarrow> x = 0x5C) \<and> bq (y # t))"

text \<open>
  A key other than \<open>summary\<close> that is written as it is, and a document all of whose keys
  are such keys.
\<close>

definition simple_key :: "ustring \<Rightarrow> bool" where
  "simple_key k \<longleftrightarrow> k \<noteq> js ''summary'' \<and> esc k = k \<and> 0x22 \<notin> set k"

fun keys_ok :: "doc \<Rightarrow> bool" where
  "keys_ok (DStr s) = True"
| "keys_ok (DArr vs) = (\<forall>v\<in>set vs. keys_ok v)"
| "keys_ok (DObj kvs) = (\<forall>kv\<in>set kvs. simple_key (fst kv) \<and> keys_ok (snd kv))"

section \<open>Facts about the matcher\<close>

text \<open>
  What the matcher leaves over is a suffix of its input, a pattern without groups leaves the
  captures alone, and a capture is a piece of the input.
\<close>


lemma clear_Nil: "clear [] c = c"
  by (simp add: clear_def)

lemma ms_suffix: "(c', s') \<in> set (ms r c s) \<Longrightarrow> suffix s' s"
proof (induction r c s arbitrary: c' s' rule: ms.induct)
  case (1 k c s)
  then show ?case by (auto simp: suffix_drop split: if_splits)
next
  case (2 P c s)
  then show ?case by (auto simp: suffix_ConsI split: list.splits if_splits)
next
  case (3 c s)
  then show ?case by (auto split: if_splits)
next
  case (4 a b c s)
  from "4.prems" obtain c1 s1 where m: "(c1, s1) \<in> set (ms a c s)" "(c', s') \<in> set (ms b c1 s1)"
    by auto
  from "4.IH"(1) [OF m(1)] "4.IH"(2) [OF m(1) refl m(2)] show ?case
    by (rule suffix_order.trans [rotated])
next
  case (5 a b c s)
  then show ?case by auto
next
  case (6 i a c s)
  then show ?case by auto
next
  case (7 g a c s)
  show ?case
  proof (cases "(c', s') = (c, s)")
    case True
    then show ?thesis by simp
  next
    case False
    with "7.prems" obtain c1 s1 where m: "(c1, s1) \<in> set (ms a (clear (grps a) c) s)"
      "length s1 < length s" "(c', s') \<in> set (ms (Star g a) c1 s1)"
      by (auto simp: ms.simps(7) [of g a c s] Let_def split: if_splits)
    from "7.IH"(1) [OF m(1)] "7.IH"(2) [OF m(1) refl m(2) m(3)] show ?thesis
      by (rule suffix_order.trans [rotated])
  qed
qed


lemma ms_nogroups: "grps r = [] \<Longrightarrow> (c', s') \<in> set (ms r c s) \<Longrightarrow> c' = c"
proof (induction r c s arbitrary: c' s' rule: ms.induct)
  case (4 a b c s)
  from "4.prems" obtain c1 s1 where m: "(c1, s1) \<in> set (ms a c s)" "(c', s') \<in> set (ms b c1 s1)"
    by auto
  from "4.prems"(1) have g: "grps a = []" "grps b = []" by auto
  from "4.IH"(1) [OF g(1) m(1)] "4.IH"(2) [OF m(1) refl g(2) m(2)] show ?case by simp
next
  case (7 g a c s)
  show ?case
  proof (cases "(c', s') = (c, s)")
    case True
    then show ?thesis by simp
  next
    case False
    with "7.prems" obtain c1 s1 where m: "(c1, s1) \<in> set (ms a (clear (grps a) c) s)"
      "length s1 < length s" "(c', s') \<in> set (ms (Star g a) c1 s1)"
      by (auto simp: ms.simps(7) [of g a c s] Let_def split: if_splits)
    from "7.prems"(1) have ga: "grps a = []" by simp
    from "7.IH"(1) [OF ga m(1)] have "c1 = c" by (simp add: ga clear_Nil)
    with "7.IH"(2) [OF m(1) refl m(2) "7.prems"(1) m(3)] show ?thesis by simp
  qed
qed (auto split: if_splits list.splits)

lemma ms_caps_sublist:
  "(c', s') \<in> set (ms r c s) \<Longrightarrow> c' i = Some g \<Longrightarrow> c i = Some g \<or> sublist g s"
proof (induction r c s arbitrary: c' s' rule: ms.induct)
  case (4 a b c s)
  from "4.prems" obtain c1 s1 where m: "(c1, s1) \<in> set (ms a c s)" "(c', s') \<in> set (ms b c1 s1)"
    by auto
  from "4.IH"(2) [OF m(1) refl m(2) "4.prems"(2)] have "c1 i = Some g \<or> sublist g s1" .
  then show ?case
  proof
    assume "c1 i = Some g"
    from "4.IH"(1) [OF m(1) this] show ?thesis .
  next
    assume "sublist g s1"
    moreover from ms_suffix [OF m(1)] have "sublist s1 s" by (rule suffix_imp_sublist)
    ultimately show ?thesis using sublist_order.order.trans by blast
  qed
next
  case (6 j a c s)
  from "6.prems" obtain c1 where m: "(c1, s') \<in> set (ms a c s)"
    and c': "c' = c1(j \<mapsto> take (length s - length s') s)"
    by auto
  show ?case
  proof (cases "i = j")
    case True
    with c' "6.prems"(2) have "g = take (length s - length s') s" by simp
    then have "prefix g s" by (simp add: take_is_prefix)
    then show ?thesis by (simp add: prefix_imp_sublist)
  next
    case False
    with c' "6.prems"(2) have "c1 i = Some g" by simp
    from "6.IH" [OF m this] show ?thesis .
  qed
next
  case (7 gr a c s)
  show ?case
  proof (cases "(c', s') = (c, s)")
    case True
    with "7.prems" show ?thesis by simp
  next
    case False
    with "7.prems" obtain c1 s1 where m: "(c1, s1) \<in> set (ms a (clear (grps a) c) s)"
      "length s1 < length s" "(c', s') \<in> set (ms (Star gr a) c1 s1)"
      by (auto simp: ms.simps(7) [of gr a c s] Let_def split: if_splits)
    from "7.IH"(2) [OF m(1) refl m(2) m(3) "7.prems"(2)] have "c1 i = Some g \<or> sublist g s1" .
    then show ?thesis
    proof
      assume "c1 i = Some g"
      from "7.IH"(1) [OF m(1) this] have "clear (grps a) c i = Some g \<or> sublist g s" .
      then show ?thesis by (auto simp: clear_def split: if_splits)
    next
      assume "sublist g s1"
      moreover from ms_suffix [OF m(1)] have "sublist s1 s" by (rule suffix_imp_sublist)
      ultimately show ?thesis using sublist_order.order.trans by blast
    qed
  qed
qed (auto split: if_splits list.splits)

lemma seq_mem:
  "(c', s') \<in> set (ms (Seq a b) c s) \<longleftrightarrow>
     (\<exists>c1 s1. (c1, s1) \<in> set (ms a c s) \<and> (c', s') \<in> set (ms b c1 s1))"
  by auto

lemma lit_mem: "(c', s') \<in> set (ms (Lit k) c s) \<longleftrightarrow> c' = c \<and> s = k @ s'"
  by (auto simp: prefix_def)

lemma star_cls_Nil: "ms (Star g (Cls P)) c [] = [(c, [])]"
  by (simp add: ms.simps(7))

lemma star_cls_Cons:
  "ms (Star g (Cls P)) c (x # t) =
     (if P x then (if g then ms (Star g (Cls P)) c t @ [(c, x # t)]
                   else (c, x # t) # ms (Star g (Cls P)) c t)
      else [(c, x # t)])"
  by (simp add: ms.simps(7) [of g "Cls P" c "x # t"] clear_Nil)

lemma star_cls_mem:
  "(c', s') \<in> set (ms (Star g (Cls P)) c s) \<Longrightarrow> c' = c \<and> (\<exists>a. s = a @ s' \<and> (\<forall>x\<in>set a. P x))"
proof (induction s)
  case Nil
  then show ?case by (simp add: star_cls_Nil)
next
  case (Cons x t)
  show ?case
  proof (cases "(c', s') = (c, x # t)")
    case True
    then show ?thesis by simp
  next
    case False
    with Cons.prems have px: "P x" and "(c', s') \<in> set (ms (Star g (Cls P)) c t)"
      by (auto simp: star_cls_Cons split: if_splits)
    from Cons.IH [OF this(2)] obtain a where "c' = c" "t = a @ s'" "\<forall>x\<in>set a. P x" by blast
    with px have "x # t = (x # a) @ s' \<and> (\<forall>y\<in>set (x # a). P y)" by simp
    with \<open>c' = c\<close> show ?thesis by blast
  qed
qed

lemma first_match_mem:
  assumes "first_match r s = Some (m, c)"
  shows "\<exists>rest. (c, rest) \<in> set (ms r (\<lambda>i. None) s) \<and> s = m @ rest"
proof -
  from assms obtain rest xs where ms: "ms r (\<lambda>i. None) s = (c, rest) # xs"
    and m: "m = take (length s - length rest) s"
    by (auto simp: first_match_def split: list.splits)
  then have mem: "(c, rest) \<in> set (ms r (\<lambda>i. None) s)" by simp
  from ms_suffix [OF mem] obtain p where "s = p @ rest" by (auto simp: suffix_def)
  with m mem show ?thesis by auto
qed

lemma str_match_mem:
  "str_match r s = Some (m, c) \<Longrightarrow> \<exists>p t. s = p @ t \<and> first_match r t = Some (m, c)"
proof (induction s)
  case Nil
  then show ?case by simp
next
  case (Cons x s)
  show ?case
  proof (cases "first_match r (x # s)")
    case None
    with Cons.prems have "str_match r s = Some (m, c)" by simp
    from Cons.IH [OF this] obtain p t where "s = p @ t" "first_match r t = Some (m, c)" by blast
    then have "x # s = (x # p) @ t \<and> first_match r t = Some (m, c)" by simp
    then show ?thesis by blast
  next
    case (Some a)
    with Cons.prems have "first_match r (x # s) = Some (m, c)" by simp
    then have "x # s = [] @ (x # s) \<and> first_match r (x # s) = Some (m, c)" by simp
    then show ?thesis by blast
  qed
qed

lemma str_match_all_from_mem:
  "x \<in> set (str_match_all_from r k s) \<Longrightarrow> \<exists>t c. suffix t s \<and> first_match r t = Some (x, c)"
proof (induction s arbitrary: k)
  case Nil
  show ?case
  proof (cases "first_match r []")
    case None
    then have "str_match_all_from r k [] = []" by simp
    with Nil have "x \<in> set []" by (simp only:)
    then show ?thesis by simp
  next
    case (Some mc)
    obtain m c where mc: "mc = (m, c)" by (cases mc)
    with Some have "str_match_all_from r k [] = (if k = 0 then [m] else [])" by simp
    with Nil have "x \<in> set (if k = 0 then [m] else [])" by (simp only:)
    then have "x = m" by (cases "k = 0") simp_all
    with Some mc have "suffix [] [] \<and> first_match r [] = Some (x, c)" by simp
    then show ?thesis by (intro exI)
  qed
next
  case (Cons y s)
  have "(\<exists>c. first_match r (y # s) = Some (x, c)) \<or> (\<exists>k'. x \<in> set (str_match_all_from r k' s))"
  proof (cases "0 < k")
    case True
    then have "str_match_all_from r k (y # s) = str_match_all_from r (k - 1) s" by simp
    with Cons.prems have "x \<in> set (str_match_all_from r (k - 1) s)" by (simp only:)
    then show ?thesis by (intro disjI2 exI)
  next
    case k0: False
    show ?thesis
    proof (cases "first_match r (y # s)")
      case None
      with k0 have "str_match_all_from r k (y # s) = str_match_all_from r 0 s" by simp
      with Cons.prems have "x \<in> set (str_match_all_from r 0 s)" by (simp only:)
      then show ?thesis by (intro disjI2 exI)
    next
      case (Some mc)
      obtain m c where mc: "mc = (m, c)" by (cases mc)
      with Some k0 have "str_match_all_from r k (y # s) = m # str_match_all_from r (length m - 1) s"
        by simp
      with Cons.prems have "x \<in> set (m # str_match_all_from r (length m - 1) s)" by (simp only:)
      then have "x = m \<or> x \<in> set (str_match_all_from r (length m - 1) s)" by simp
      then show ?thesis
      proof
        assume "x = m"
        with Some mc have "first_match r (y # s) = Some (x, c)" by simp
        then show ?thesis by (intro disjI1 exI)
      next
        assume "x \<in> set (str_match_all_from r (length m - 1) s)"
        then show ?thesis by (intro disjI2 exI)
      qed
    qed
  qed
  then show ?case
  proof
    assume "\<exists>c. first_match r (y # s) = Some (x, c)"
    then obtain c where "first_match r (y # s) = Some (x, c)" ..
    then have "suffix (y # s) (y # s) \<and> first_match r (y # s) = Some (x, c)" by simp
    then show ?thesis by (intro exI)
  next
    assume "\<exists>k'. x \<in> set (str_match_all_from r k' s)"
    then obtain k' where "x \<in> set (str_match_all_from r k' s)" ..
    from Cons.IH [OF this] obtain t c where "suffix t s" "first_match r t = Some (x, c)" by blast
    then have "suffix t (y # s) \<and> first_match r t = Some (x, c)" by (simp add: suffix_ConsI)
    then show ?thesis by (intro exI)
  qed
qed

lemma js_units:
  "js ''{'' = [0x7B]" "js ''}'' = [0x7D]" "js '':'' = [0x3A]" "js ''['' = [0x5B]" "js '']'' = [0x5D]"
  by (simp_all add: js_def)

lemma grp_sets: "(c', s') \<in> set (ms (Grp i a) c s) \<Longrightarrow> \<exists>g. c' i = Some g"
  by auto

lemma seq_grp_sets:
  assumes "(c', s') \<in> set (ms (Seq (Grp i a) b) c s)" and "grps b = []"
  shows "\<exists>g. c' i = Some g"
proof -
  from assms(1) obtain c1 s1 where m: "(c1, s1) \<in> set (ms (Grp i a) c s)" "(c', s') \<in> set (ms b c1 s1)"
    unfolding seq_mem by blast
  from ms_nogroups [OF assms(2) m(2)] grp_sets [OF m(1)] show ?thesis by simp
qed

lemma seq_tail:
  assumes "(c', s') \<in> set (ms (Seq a b) c s)"
  obtains c1 s1 where "(c', s') \<in> set (ms b c1 s1)"
  using assms unfolding seq_mem by blast

lemma field_sets:
  assumes "(c', s') \<in> set (ms (seqs [a1, a2, a3, a4, a5, Grp 1 g, b]) c s)" and "grps b = []"
  shows "\<exists>x. c' 1 = Some x"
proof -
  from assms(1) have "(c', s') \<in> set (ms (Seq a1 (Seq a2 (Seq a3 (Seq a4 (Seq a5 (Seq (Grp 1 g) b)))))) c s)"
    by (simp only: seqs.simps)
  then obtain c1 s1 where "(c', s') \<in> set (ms (Seq a2 (Seq a3 (Seq a4 (Seq a5 (Seq (Grp 1 g) b))))) c1 s1)"
    by (rule seq_tail)
  then obtain c2 s2 where "(c', s') \<in> set (ms (Seq a3 (Seq a4 (Seq a5 (Seq (Grp 1 g) b)))) c2 s2)"
    by (rule seq_tail)
  then obtain c3 s3 where "(c', s') \<in> set (ms (Seq a4 (Seq a5 (Seq (Grp 1 g) b))) c3 s3)"
    by (rule seq_tail)
  then obtain c4 s4 where "(c', s') \<in> set (ms (Seq a5 (Seq (Grp 1 g) b)) c4 s4)"
    by (rule seq_tail)
  then obtain c5 s5 where "(c', s') \<in> set (ms (Seq (Grp 1 g) b) c5 s5)"
    by (rule seq_tail)
  then show ?thesis using assms(2) by (rule seq_grp_sets)
qed

lemma str_match_suffix:
  "str_match r s = Some m \<Longrightarrow> \<exists>t. suffix t s \<and> first_match r t = Some m"
proof -
  assume a: "str_match r s = Some m"
  obtain x c where m: "m = (x, c)" by (cases m)
  from str_match_mem [OF a [unfolded m]] obtain p t where "s = p @ t" "first_match r t = Some (x, c)"
    by blast
  then have "suffix t s \<and> first_match r t = Some m" by (simp add: m suffix_def)
  then show ?thesis by (intro exI)
qed

lemma first_match_group:
  assumes "first_match r t = Some m"
    and "\<And>c' s' c s. (c', s') \<in> set (ms r c s) \<Longrightarrow> \<exists>x. c' 1 = Some x"
  shows "\<exists>g. group m 1 = Str g"
proof -
  obtain x c where m: "m = (x, c)" by (cases m)
  from first_match_mem [OF assms(1) [unfolded m]] obtain rest where "(c, rest) \<in> set (ms r (\<lambda>i. None) t)"
    by blast
  from assms(2) [OF this] obtain g where "c 1 = Some g" ..
  then have "group m 1 = Str g" by (simp add: group_def m)
  then show ?thesis ..
qed

lemma string_field_group: "str_match (string_field key) s = Some m \<Longrightarrow> \<exists>g. group m 1 = Str g"
proof -
  assume "str_match (string_field key) s = Some m"
  from str_match_suffix [OF this] obtain t where t: "first_match (string_field key) t = Some m"
    by blast
  show ?thesis
  proof (rule first_match_group [OF t])
    fix c' s' c s
    assume "(c', s') \<in> set (ms (string_field key) c s)"
    then show "\<exists>x. c' 1 = Some x"
      unfolding string_field_def by (rule field_sets) simp
  qed
qed

lemma plain_field_group: "str_match (plain_field key) s = Some m \<Longrightarrow> \<exists>g. group m 1 = Str g"
proof -
  assume "str_match (plain_field key) s = Some m"
  from str_match_suffix [OF this] obtain t where t: "first_match (plain_field key) t = Some m"
    by blast
  show ?thesis
  proof (rule first_match_group [OF t])
    fix c' s' c s
    assume "(c', s') \<in> set (ms (plain_field key) c s)"
    then show "\<exists>x. c' 1 = Some x"
      unfolding plain_field_def by (rule field_sets) simp
  qed
qed

lemma array_field_group: "str_match (array_field key) s = Some m \<Longrightarrow> \<exists>g. group m 1 = Str g"
proof -
  assume "str_match (array_field key) s = Some m"
  from str_match_suffix [OF this] obtain t where t: "first_match (array_field key) t = Some m"
    by blast
  show ?thesis
  proof (rule first_match_group [OF t])
    fix c' s' c s
    assume "(c', s') \<in> set (ms (array_field key) c s)"
    then show "\<exists>x. c' 1 = Some x"
      unfolding array_field_def by (rule field_sets) simp
  qed
qed

section \<open>The salvage never throws\<close>

text \<open>
  Every exception the salvage could raise is a branch of the model; none of them can be
  taken. Group 1 takes part in every match of the field patterns, so \<open>m[1]\<close> is a
  string; a span matched by the event pattern starts with a brace, so what
  \<open>JSON.parse\<close> makes of it is an object, and so is the fallback record; reading
  \<open>headline\<close> from an object does not throw.
\<close>


lemma JSON_parse_brace:
  assumes "JSON_parse (0x7B # t) = Inr v"
  shows "\<exists>kvs. v = Obj kvs"
proof -
  have sk: "skip_ws (0x7B # t) = 0x7B # t"
    by (simp add: skip_ws_def is_json_ws_def)
  from assms obtain r where pv: "parse_value (0x7B # t) = Some (v, r)"
    by (auto simp: JSON_parse_def split: option.splits if_splits)
  then show ?thesis
    by (subst (asm) parse_value.simps) (auto simp: sk split: list.splits if_splits option.splits)
qed

lemma extract_summary_total:
  "\<exists>v. extract_summary text = Inr v \<and> (v = Undefined \<or> (\<exists>x. v = Str x))"
proof (cases "str_match (string_field (js ''summary'')) text")
  case None
  then show ?thesis by (simp add: extract_summary_def)
next
  case (Some m)
  from string_field_group [OF Some] obtain g where "group m 1 = Str g" ..
  with Some show ?thesis by (simp add: extract_summary_def replace_quotes_def)
qed

lemma opt_group_replaced_total:
  "\<exists>v. opt_group_replaced (str_match (string_field key) s) = Inr v"
proof (cases "str_match (string_field key) s")
  case None
  then show ?thesis by (simp add: opt_group_replaced_def)
next
  case (Some m)
  from string_field_group [OF Some] obtain g where "group m 1 = Str g" ..
  with Some show ?thesis by (simp add: opt_group_replaced_def replace_quotes_def)
qed

lemma fallback_event_total:
  "\<exists>c h d g. fallback_event s =
      Inr (Obj [(js ''category'', c), (js ''headline'', h), (js ''description'', d),
                (js ''significance'', g)])"
proof -
  obtain h where h: "opt_group_replaced (str_match (string_field (js ''headline'')) s) = Inr h"
    using opt_group_replaced_total by blast
  obtain d where d: "opt_group_replaced (str_match (string_field (js ''description'')) s) = Inr d"
    using opt_group_replaced_total by blast
  show ?thesis
    by (simp add: fallback_event_def Let_def h d)
qed

lemma event_of_brace: "\<exists>kvs. event_of (0x7B # t) = Inr (Obj kvs)"
proof (cases "JSON_parse (0x7B # t)")
  case (Inl e)
  with fallback_event_total [of "0x7B # t"] show ?thesis
    by (auto simp: event_of_def)
next
  case (Inr v)
  with JSON_parse_brace [OF Inr] show ?thesis
    by (auto simp: event_of_def)
qed

lemma event_re_shape:
  assumes "first_match event_re t = Some (x, c)"
  shows "\<exists>a b. x = 0x7B # a @ (0x22 # js ''headline'' @ [0x22]) @ b @ [0x7D]
            \<and> 0x7D \<notin> set a \<and> 0x7D \<notin> set b"
proof -
  from first_match_mem [OF assms] obtain rest where
    m: "(c, rest) \<in> set (ms event_re (\<lambda>i. None) t)" and t: "t = x @ rest"
    by blast
  let ?k = "0x22 # js ''headline'' @ [0x22]"
  from m have "(c, rest) \<in> set (ms (Seq (Lit [0x7B]) (Seq (Star True (Cls not_rbrace))
       (Seq (Lit ?k) (Seq (Star True (Cls not_rbrace)) (Lit [0x7D]))))) (\<lambda>i. None) t)"
    by (simp only: event_re_def seqs.simps js_units)
  then obtain c1 s1 c2 s2 c3 s3 c4 s4 where
    1: "(c1, s1) \<in> set (ms (Lit [0x7B]) (\<lambda>i. None) t)" and
    2: "(c2, s2) \<in> set (ms (Star True (Cls not_rbrace)) c1 s1)" and
    3: "(c3, s3) \<in> set (ms (Lit ?k) c2 s2)" and
    4: "(c4, s4) \<in> set (ms (Star True (Cls not_rbrace)) c3 s3)" and
    5: "(c, rest) \<in> set (ms (Lit [0x7D]) c4 s4)"
    unfolding seq_mem by blast
  from 1 have t1: "t = [0x7B] @ s1" unfolding lit_mem by simp
  from star_cls_mem [OF 2] obtain a where a: "s1 = a @ s2" "\<forall>u\<in>set a. not_rbrace u" by blast
  from 3 have t3: "s2 = ?k @ s3" unfolding lit_mem by simp
  from star_cls_mem [OF 4] obtain b where b: "s3 = b @ s4" "\<forall>u\<in>set b. not_rbrace u" by blast
  from 5 have t5: "s4 = [0x7D] @ rest" unfolding lit_mem by simp
  have "x @ rest = (0x7B # a @ ?k @ b @ [0x7D]) @ rest"
    using t t1 a(1) t3 b(1) t5 by simp
  then have "x = 0x7B # a @ ?k @ b @ [0x7D]" by (simp only: append_same_eq)
  moreover from a(2) b(2) have "0x7D \<notin> set a \<and> 0x7D \<notin> set b"
    by (auto simp: not_rbrace_def)
  ultimately show ?thesis by blast
qed

lemma try_map_objs:
  "(\<And>x. x \<in> set xs \<Longrightarrow> \<exists>kvs. f x = Inr (Obj kvs)) \<Longrightarrow>
     \<exists>ys. try_map f xs = Inr ys \<and> (\<forall>y\<in>set ys. \<exists>kvs. y = Obj kvs)"
proof (induction xs)
  case Nil
  then show ?case by simp
next
  case (Cons x xs)
  from Cons.prems [of x] obtain kvs where x: "f x = Inr (Obj kvs)" by auto
  from Cons.IH Cons.prems obtain ys where ys: "try_map f xs = Inr ys" "\<forall>y\<in>set ys. \<exists>kvs. y = Obj kvs"
    by auto
  then show ?case by (simp add: x)
qed

lemma filter_events_objs:
  "(\<forall>y\<in>set evs. \<exists>kvs. y = Obj kvs) \<Longrightarrow>
     \<exists>kept. filter_events evs = Inr kept \<and> set kept \<subseteq> set evs \<and>
        (\<forall>ev\<in>set kept. get_prop ev (js ''headline'') \<noteq> Inr (Str (js ''Loading...'')))"
proof (induction evs)
  case Nil
  then show ?case by simp
next
  case (Cons ev evs)
  from Cons.prems obtain kvs where ev: "ev = Obj kvs" by auto
  obtain h where h: "get_prop ev (js ''headline'') = Inr h"
    unfolding ev by (cases "map_of (rev kvs) (js ''headline'')") simp_all
  from Cons obtain kept where k: "filter_events evs = Inr kept" "set kept \<subseteq> set evs"
    "\<forall>ev\<in>set kept. get_prop ev (js ''headline'') \<noteq> Inr (Str (js ''Loading...''))"
    by auto
  show ?case
  proof (cases "h = Str (js ''Loading...'')")
    case True
    with h k show ?thesis by (simp add: subset_insertI2)
  next
    case False
    with h k show ?thesis by (auto simp: subset_insertI2)
  qed
qed

lemma event_matches_objs:
  assumes "x \<in> set (str_match_all event_re s)"
  shows "\<exists>kvs. event_of x = Inr (Obj kvs)"
proof -
  from assms str_match_all_from_mem obtain t c where "first_match event_re t = Some (x, c)"
    unfolding str_match_all_def by blast
  from event_re_shape [OF this] obtain y where "x = 0x7B # y" by blast
  then show ?thesis using event_of_brace by simp
qed

lemma extract_events_total:
  "\<exists>evs. extract_events text = Inr evs \<and>
     (\<forall>ev\<in>set evs. (\<exists>kvs. ev = Obj kvs) \<and>
         get_prop ev (js ''headline'') \<noteq> Inr (Str (js ''Loading...'')))"
proof (cases "str_match (array_field (js ''events'')) text")
  case None
  then show ?thesis by (simp add: extract_events_def)
next
  case (Some m)
  from array_field_group [OF Some] obtain g where g: "group m 1 = Str g" ..
  from try_map_objs [of "str_match_all event_re g" event_of] event_matches_objs
  obtain ys where ys: "try_map event_of (str_match_all event_re g) = Inr ys"
    "\<forall>y\<in>set ys. \<exists>kvs. y = Obj kvs" by blast
  from filter_events_objs [OF ys(2)] obtain kept where k: "filter_events ys = Inr kept"
    "set kept \<subseteq> set ys"
    "\<forall>ev\<in>set kept. get_prop ev (js ''headline'') \<noteq> Inr (Str (js ''Loading...''))" by blast
  have "extract_events text = Inr kept"
    using g by (simp add: extract_events_def Some ys(1) k(1))
  moreover from ys(2) k(2) have "\<forall>ev\<in>set kept. \<exists>kvs. ev = Obj kvs" by blast
  ultimately show ?thesis using k(3) by blast
qed

lemma extract_barTalk_total:
  "\<exists>bt. extract_barTalk text = Inr bt \<and> (\<forall>b\<in>set bt. \<exists>x. b = Str x)"
proof (cases "str_match (array_field (js ''barTalk'')) text")
  case None
  then show ?thesis by (simp add: extract_barTalk_def)
next
  case (Some m)
  from array_field_group [OF Some] obtain g where g: "group m 1 = Str g" ..
  show ?thesis using g by (auto simp: extract_barTalk_def Some)
qed

lemma salvage_shape:
  "\<exists>s evs bt. salvage text =
       Inr (Obj [(js ''summary'', s), (js ''events'', Arr evs), (js ''barTalk'', Arr bt)])
     \<and> extract_summary text = Inr s \<and> extract_events text = Inr evs
     \<and> extract_barTalk text = Inr bt"
proof -
  obtain s where s: "extract_summary text = Inr s" using extract_summary_total by blast
  obtain evs where e: "extract_events text = Inr evs" using extract_events_total by blast
  obtain bt where b: "extract_barTalk text = Inr bt" using extract_barTalk_total by blast
  show ?thesis by (simp add: salvage_def s e b)
qed

text \<open>The three members of a salvaged object, read back.\<close>

lemma js_keys_distinct:
  "js ''summary'' \<noteq> js ''events''" "js ''summary'' \<noteq> js ''barTalk''"
  "js ''events'' \<noteq> js ''barTalk''" "js ''events'' \<noteq> js ''summary''"
  "js ''barTalk'' \<noteq> js ''summary''" "js ''barTalk'' \<noteq> js ''events''"
  by (simp_all add: js_def)

lemma get_prop_salvaged:
  "get_prop (Obj [(js ''summary'', s), (js ''events'', e), (js ''barTalk'', b)]) (js ''summary'') = Inr s"
  "get_prop (Obj [(js ''summary'', s), (js ''events'', e), (js ''barTalk'', b)]) (js ''events'') = Inr e"
  "get_prop (Obj [(js ''summary'', s), (js ''events'', e), (js ''barTalk'', b)]) (js ''barTalk'') = Inr b"
  by (simp_all add: js_keys_distinct)

lemma tryParse_salvage:
  "JSON_parse text = Inl e \<Longrightarrow> salvage text = Inr v \<Longrightarrow> tryParsePartialJSON text = Inr v"
  by (simp add: tryParsePartialJSON_def)

text \<open>The completeness test does not throw, and it passes only when the three members are present.\<close>

lemma truthy_present: "truthy x \<Longrightarrow> x \<noteq> Undefined \<and> x \<noteq> Null"
  by (cases x) simp_all

lemma get_prop_truthy: "truthy v \<Longrightarrow> \<exists>x. get_prop v k = Inr x"
  by (cases v) (simp_all split: option.splits)

lemma complete_total:
  "\<exists>b. complete v = Inr b \<and>
     (b \<longrightarrow> present v (js ''summary'') \<and> present v (js ''events'') \<and> present v (js ''barTalk''))"
proof (cases "truthy v")
  case False
  then have "complete v = Inr False" by (simp add: complete_def)
  then show ?thesis by (intro exI [of _ False]) simp
next
  case True
  obtain s where s: "get_prop v (js ''summary'') = Inr s" using get_prop_truthy [OF True] by blast
  obtain e where e: "get_prop v (js ''events'') = Inr e" using get_prop_truthy [OF True] by blast
  obtain b where b: "get_prop v (js ''barTalk'') = Inr b" using get_prop_truthy [OF True] by blast
  have "complete v = Inr (truthy s \<and> truthy e \<and> truthy b)"
    by (simp add: complete_def True s e b)
  moreover have "truthy s \<and> truthy e \<and> truthy b \<longrightarrow>
      present v (js ''summary'') \<and> present v (js ''events'') \<and> present v (js ''barTalk'')"
    using truthy_present by (auto simp: present_def s e b)
  ultimately show ?thesis by blast
qed

lemma absent_member: "k \<notin> fst ` set kvs \<Longrightarrow> get_prop (Obj kvs) k = Inr Undefined"
proof -
  assume "k \<notin> fst ` set kvs"
  then have "map_of (rev kvs) k = None" by (simp add: map_of_eq_None_iff)
  then show ?thesis by simp
qed

text \<open>
  A field pattern starts with the quoted key, so it finds nothing in a span in which the
  quoted key does not occur.
\<close>

lemma first_match_prefix: "first_match r t = Some (x, c) \<Longrightarrow> prefix x t"
  using first_match_mem [of r t x c] by (auto simp: prefix_def)

lemma first_match_lit_None: "\<not> prefix k s \<Longrightarrow> first_match (Seq (Lit k) r) s = None"
  by (simp add: first_match_def)

lemma str_match_None:
  "(\<And>t. suffix t s \<Longrightarrow> first_match r t = None) \<Longrightarrow> str_match r s = None"
proof (induction s)
  case Nil
  then show ?case by simp
next
  case (Cons x s)
  have "first_match r (x # s) = None" by (rule Cons.prems) simp
  moreover have "str_match r s = None"
    by (rule Cons.IH, rule Cons.prems) (simp add: suffix_ConsI)
  ultimately show ?case by simp
qed

lemma absent_key_no_match:
  assumes "\<not> sublist k s"
  shows "str_match (Seq (Lit k) r) s = None"
proof (rule str_match_None)
  fix t
  assume "suffix t s"
  have "\<not> prefix k t"
  proof
    assume "prefix k t"
    then have "sublist k t" by (rule prefix_imp_sublist)
    moreover from \<open>suffix t s\<close> have "sublist t s" by (rule suffix_imp_sublist)
    ultimately have "sublist k s" by (rule sublist_order.order.trans)
    with assms show False ..
  qed
  then show "first_match (Seq (Lit k) r) t = None" by (rule first_match_lit_None)
qed

lemma absent_key_plain_field:
  "\<not> sublist (0x22 # key @ [0x22]) s \<Longrightarrow> str_match (plain_field key) s = None"
  unfolding plain_field_def seqs.simps by (rule absent_key_no_match)

lemma absent_key_string_field:
  "\<not> sublist (0x22 # key @ [0x22]) s \<Longrightarrow> str_match (string_field key) s = None"
  unfolding string_field_def seqs.simps by (rule absent_key_no_match)

lemma get_prop_fallback_headline:
  "get_prop (Obj [(js ''category'', c), (js ''headline'', h), (js ''description'', d),
                  (js ''significance'', g)]) (js ''headline'') = Inr h"
  by (simp add: js_def)

text \<open>
  A capture is a piece of the text searched, and a match of the event pattern is a brace,
  the quoted key \<open>headline\<close> and a closing brace with no closing brace in between.
\<close>

lemma sublist_trans3: "prefix x t \<Longrightarrow> suffix t g \<Longrightarrow> sublist g s \<Longrightarrow> sublist x s"
proof -
  assume "prefix x t" "suffix t g" "sublist g s"
  have "sublist x t" using \<open>prefix x t\<close> by (rule prefix_imp_sublist)
  moreover have "sublist t g" using \<open>suffix t g\<close> by (rule suffix_imp_sublist)
  ultimately have "sublist x g" by (rule sublist_order.order.trans)
  then show ?thesis using \<open>sublist g s\<close> by (rule sublist_order.order.trans)
qed

lemma str_match_group_sublist:
  assumes "str_match r s = Some m" and "group m 1 = Str g"
  shows "sublist g s"
proof -
  obtain x c where m: "m = (x, c)" by (cases m)
  from str_match_suffix [OF assms(1)] obtain t where t: "suffix t s" "first_match r t = Some (x, c)"
    unfolding m by blast
  from first_match_mem [OF t(2)] obtain rest where mem: "(c, rest) \<in> set (ms r (\<lambda>i. None) t)"
    by blast
  from assms(2) have "c 1 = Some g" by (simp add: group_def m split: option.splits)
  from ms_caps_sublist [OF mem this] have "sublist g t" by simp
  moreover from t(1) have "sublist t s" by (rule suffix_imp_sublist)
  ultimately show ?thesis by (rule sublist_order.order.trans)
qed

lemma no_span_no_matches:
  assumes "\<forall>a b. 0x7D \<notin> set a \<and> 0x7D \<notin> set b \<longrightarrow>
             \<not> sublist (0x7B # a @ (0x22 # js ''headline'' @ [0x22]) @ b @ [0x7D]) s"
    and "sublist g s"
  shows "str_match_all event_re g = []"
proof (rule ccontr)
  assume "str_match_all event_re g \<noteq> []"
  then obtain x where "x \<in> set (str_match_all_from event_re 0 g)"
    unfolding str_match_all_def by (cases "str_match_all_from event_re 0 g") auto
  from str_match_all_from_mem [OF this] obtain t c where
    t: "suffix t g" "first_match event_re t = Some (x, c)" by blast
  from event_re_shape [OF t(2)] obtain a b where
    x: "x = 0x7B # a @ (0x22 # js ''headline'' @ [0x22]) @ b @ [0x7D]"
    and ab: "0x7D \<notin> set a \<and> 0x7D \<notin> set b" by blast
  from first_match_prefix [OF t(2)] t(1) assms(2) have "sublist x s" by (rule sublist_trans3)
  with assms(1) ab x show False by blast
qed

text \<open>
  The match the engine reports for a field pattern, computed on a text of the shape
  key, white space, colon, white space and a quoted value without a quote character in it:
  the greedy stars take all the white space and the whole value, and the loop for escaped
  characters stops at the closing quote.
\<close>

lemma ms_hd_Seq:
  "ms a c s = (c1, s1) # xs \<Longrightarrow> ms b c1 s1 = y # ys \<Longrightarrow> \<exists>zs. ms (Seq a b) c s = y # zs"
  by simp

lemma ms_hd_Lit_Seq:
  "ms b c s = y # ys \<Longrightarrow> \<exists>zs. ms (Seq (Lit k) b) c (k @ s) = y # zs"
  by simp

lemma ms_hd_Grp:
  "ms a c s = (c1, s1) # xs \<Longrightarrow>
     \<exists>zs. ms (Grp i a) c s = (c1(i \<mapsto> take (length s - length s1) s), s1) # zs"
  by simp

lemma star_greedy_hd:
  "\<forall>x\<in>set a. P x \<Longrightarrow> (case s of [] \<Rightarrow> True | y # t \<Rightarrow> \<not> P y) \<Longrightarrow>
     \<exists>zs. ms (Star True (Cls P)) c (a @ s) = (c, s) # zs"
proof (induction a)
  case Nil
  then show ?case by (cases s) (simp_all add: star_cls_Nil star_cls_Cons)
next
  case (Cons x a)
  then obtain zs where "ms (Star True (Cls P)) c (a @ s) = (c, s) # zs" by auto
  moreover from Cons.prems have "P x" by simp
  ultimately show ?case by (simp add: star_cls_Cons)
qed

lemma ms_hd_Star_Seq:
  assumes "\<forall>x\<in>set a. P x" and "\<not> P u" and "ms b c (u # s) = y # ys"
  shows "\<exists>zs. ms (Seq (Star True (Cls P)) b) c (a @ u # s) = y # zs"
proof -
  from star_greedy_hd [OF assms(1), of "u # s" c] assms(2)
  obtain zs where "ms (Star True (Cls P)) c (a @ u # s) = (c, u # s) # zs" by auto
  from ms_hd_Seq [OF this assms(3)] show ?thesis .
qed

lemma escape_loop_stops:
  "ms (Star True (seqs [Lit [0x5C], Cls dot, Star True (Cls not_quote)])) c (0x22 # rest)
     = [(c, 0x22 # rest)]"
  by (simp add: ms.simps(7) [of _ _ c "0x22 # rest"])

lemma quoted_body_hd:
  assumes "\<forall>u\<in>set s. u \<noteq> 0x22"
  shows "\<exists>zs. ms quoted_body c (s @ 0x22 # rest) = (c, 0x22 # rest) # zs"
proof -
  from assms have "\<forall>u\<in>set s. not_quote u" by (simp add: not_quote_def)
  moreover have "\<not> not_quote 0x22" by (simp add: not_quote_def)
  moreover note escape_loop_stops [of c rest]
  ultimately show ?thesis unfolding quoted_body_def by (rule ms_hd_Star_Seq)
qed

lemma quoted_value_hd:
  assumes "\<forall>u\<in>set s. u \<noteq> 0x22"
  shows "\<exists>zs. ms (Seq (Grp 1 quoted_body) (Lit [0x22])) c (s @ 0x22 # rest) = (c(1 \<mapsto> s), rest) # zs"
proof -
  from quoted_body_hd [OF assms] obtain zs where
    "ms quoted_body c (s @ 0x22 # rest) = (c, 0x22 # rest) # zs" by blast
  from ms_hd_Grp [OF this, of 1] obtain zs' where
    "ms (Grp 1 quoted_body) c (s @ 0x22 # rest) = (c(1 \<mapsto> s), 0x22 # rest) # zs'" by auto
  moreover have "ms (Lit [0x22]) (c(1 \<mapsto> s)) (0x22 # rest) = [(c(1 \<mapsto> s), rest)]" by simp
  ultimately show ?thesis by (rule ms_hd_Seq)
qed

lemma string_field_hd:
  assumes "\<forall>u\<in>set ws1. is_space u" and "\<forall>u\<in>set ws2. is_space u" and "\<forall>u\<in>set s. u \<noteq> 0x22"
  shows "\<exists>zs. ms (string_field key) c
            ((0x22 # key @ [0x22]) @ ws1 @ 0x3A # ws2 @ 0x22 # s @ 0x22 # rest)
          = (c(1 \<mapsto> s), rest) # zs"
proof -
  have n1: "\<not> is_space 0x3A" and n2: "\<not> is_space 0x22" by (simp_all add: is_space_def)
  from quoted_value_hd [OF assms(3)] obtain z5 where
    5: "ms (Seq (Grp 1 quoted_body) (Lit [0x22])) c (s @ 0x22 # rest) = (c(1 \<mapsto> s), rest) # z5"
    by blast
  from ms_hd_Lit_Seq [OF 5, of "[0x22]"] obtain z4 where
    4: "ms (Seq (Lit [0x22]) (Seq (Grp 1 quoted_body) (Lit [0x22]))) c (0x22 # s @ 0x22 # rest)
         = (c(1 \<mapsto> s), rest) # z4" by auto
  from ms_hd_Star_Seq [OF assms(2) n2 4] obtain z3 where
    3: "ms (Seq (Star True (Cls is_space)) (Seq (Lit [0x22]) (Seq (Grp 1 quoted_body) (Lit [0x22]))))
          c (ws2 @ 0x22 # s @ 0x22 # rest) = (c(1 \<mapsto> s), rest) # z3" by blast
  from ms_hd_Lit_Seq [OF 3, of "[0x3A]"] obtain z2 where
    2: "ms (Seq (Lit [0x3A]) (Seq (Star True (Cls is_space)) (Seq (Lit [0x22])
           (Seq (Grp 1 quoted_body) (Lit [0x22])))))
          c (0x3A # ws2 @ 0x22 # s @ 0x22 # rest) = (c(1 \<mapsto> s), rest) # z2" by auto
  from ms_hd_Star_Seq [OF assms(1) n1 2] obtain z1 where
    1: "ms (Seq (Star True (Cls is_space)) (Seq (Lit [0x3A]) (Seq (Star True (Cls is_space))
           (Seq (Lit [0x22]) (Seq (Grp 1 quoted_body) (Lit [0x22]))))))
          c (ws1 @ 0x3A # ws2 @ 0x22 # s @ 0x22 # rest) = (c(1 \<mapsto> s), rest) # z1" by blast
  from ms_hd_Lit_Seq [OF 1, of "0x22 # key @ [0x22]"] show ?thesis
    by (simp only: string_field_def seqs.simps js_units)
qed

lemma string_field_first_match:
  assumes "\<forall>u\<in>set ws1. is_space u" and "\<forall>u\<in>set ws2. is_space u" and "\<forall>u\<in>set s. u \<noteq> 0x22"
    and "t = (0x22 # key @ [0x22]) @ ws1 @ 0x3A # ws2 @ 0x22 # s @ 0x22 # rest"
  shows "\<exists>m c. first_match (string_field key) t = Some (m, c) \<and> c 1 = Some s"
proof -
  from string_field_hd [OF assms(1-3), of key "\<lambda>i. None" rest] assms(4)
  obtain zs where "ms (string_field key) (\<lambda>i. None) t = ((\<lambda>i. None)(1 \<mapsto> s), rest) # zs"
    by auto
  then show ?thesis by (simp add: first_match_def)
qed

lemma str_match_skip:
  "(\<And>i. i < length pre \<Longrightarrow> first_match r (drop i (pre @ t)) = None) \<Longrightarrow>
     str_match r (pre @ t) = str_match r t"
proof (induction pre)
  case Nil
  then show ?case by simp
next
  case (Cons x pre)
  from Cons.prems [of 0] have 0: "first_match r (x # pre @ t) = None" by simp
  have "str_match r (pre @ t) = str_match r t"
  proof (rule Cons.IH)
    fix i
    assume "i < length pre"
    with Cons.prems [of "Suc i"] show "first_match r (drop i (pre @ t)) = None" by simp
  qed
  with 0 show ?case by simp
qed

lemma str_match_here:
  "t \<noteq> [] \<Longrightarrow> first_match r t = Some m \<Longrightarrow> str_match r t = Some m"
  by (cases t) simp_all

lemma replace_without_quote:
  "0x22 \<notin> set s \<Longrightarrow> str_replace_all (Lit [0x5C, 0x22]) rep s = s"
proof -
  assume a: "0x22 \<notin> set s"
  have "str_replace_all_from (Lit [0x5C, 0x22]) rep 0 s = s" using a
  proof (induction s)
    case Nil
    then show ?case by (simp add: first_match_def)
  next
    case (Cons x s)
    have "first_match (Lit [0x5C, 0x22]) (x # s) = None"
      using Cons.prems by (cases s) (auto simp: first_match_def)
    with Cons show ?case by simp
  qed
  then show ?thesis by (simp add: str_replace_all_def)
qed

lemma parse_chars_plain:
  "\<forall>u\<in>set s. u \<noteq> 0x22 \<and> u \<noteq> 0x5C \<and> 0x20 \<le> u \<Longrightarrow>
     parse_chars (s @ 0x22 # rest) = Some (s, rest)"
proof (induction s)
  case Nil
  then show ?case by simp
next
  case (Cons x s)
  then have "parse_chars (s @ 0x22 # rest) = Some (s, rest)" by simp
  moreover from Cons.prems have "x \<noteq> 0x22" "x \<noteq> 0x5C" "\<not> x < 0x20" by auto
  ultimately show ?case by (simp add: consc_def)
qed

text \<open>
  A match of the pattern for a quoted string ends at the first quote character after the
  opening one, whether a backslash stands before it or not: the matched text holds no quote
  inside, so the rewriting of \<open>\"\<close> finds nothing to rewrite, and no string of a
  salvaged \<open>barTalk\<close> ever holds a quote character.
\<close>

lemma split_at_quote:
  "0x22 \<in> set t \<Longrightarrow> \<exists>b r. t = b @ 0x22 # r \<and> 0x22 \<notin> set b"
  by (metis split_list_first)

lemma quoted_re_first_match:
  assumes "first_match quoted_re t = Some (m, c)"
  shows "\<exists>b. m = 0x22 # b @ [0x22] \<and> 0x22 \<notin> set b \<and> c 1 = Some b"
proof -
  let ?e = "\<lambda>i. None :: ustring option"
  from first_match_mem [OF assms] obtain rest where
    mem: "(c, rest) \<in> set (ms (Seq (Lit [0x22]) (Seq (Grp 1 quoted_body) (Lit [0x22]))) ?e t)"
    unfolding quoted_re_def seqs.simps by blast
  then obtain c1 t1 c2 s2 where
    1: "(c1, t1) \<in> set (ms (Lit [0x22]) ?e t)" and
    2: "(c2, s2) \<in> set (ms (Grp 1 quoted_body) c1 t1)" and
    3: "(c, rest) \<in> set (ms (Lit [0x22]) c2 s2)"
    unfolding seq_mem by blast
  from 1 have t: "t = 0x22 # t1" unfolding lit_mem by simp
  from 3 have s2: "s2 = 0x22 # rest" unfolding lit_mem by simp
  from ms_suffix [OF 2] s2 have "0x22 \<in> set t1" by (auto simp: suffix_def)
  from split_at_quote [OF this] obtain b r where b: "t1 = b @ 0x22 # r" "0x22 \<notin> set b" by blast
  from b(2) have "\<forall>u\<in>set b. u \<noteq> 0x22" by auto
  from quoted_value_hd [OF this, of ?e r] obtain zs where
    "ms (Seq (Grp 1 quoted_body) (Lit [0x22])) ?e (b @ 0x22 # r) = (?e(1 \<mapsto> b), r) # zs" by blast
  from ms_hd_Lit_Seq [OF this, of "[0x22]"] obtain zs' where
    "ms (Seq (Lit [0x22]) (Seq (Grp 1 quoted_body) (Lit [0x22]))) ?e t = (?e(1 \<mapsto> b), r) # zs'"
    unfolding t b(1) by auto
  then have "first_match quoted_re t = Some (0x22 # b @ [0x22], ?e(1 \<mapsto> b))"
    unfolding quoted_re_def seqs.simps by (simp add: first_match_def t b(1))
  with assms have "m = 0x22 # b @ [0x22] \<and> c 1 = Some b" by auto
  with b(2) show ?thesis by blast
qed

lemma barTalk_strings_have_no_quote:
  assumes "extract_barTalk text = Inr bt" and "v \<in> set bt"
  shows "\<exists>x. v = Str x \<and> 0x22 \<notin> set x"
proof (cases "str_match (array_field (js ''barTalk'')) text")
  case None
  with assms show ?thesis by (simp add: extract_barTalk_def)
next
  case (Some bm)
  from array_field_group [OF Some] obtain g where g: "group bm 1 = Str g" ..
  from assms(1) g have "bt = map (\<lambda>m. Str (str_replace_all (Lit [0x5C, 0x22]) [0x22] (butlast (tl m))))
                        (str_match_all quoted_re g)"
    by (simp add: extract_barTalk_def Some)
  with assms(2) obtain m where m: "m \<in> set (str_match_all_from quoted_re 0 g)"
    and v: "v = Str (str_replace_all (Lit [0x5C, 0x22]) [0x22] (butlast (tl m)))"
    unfolding str_match_all_def by auto
  from str_match_all_from_mem [OF m] obtain t c where "first_match quoted_re t = Some (m, c)"
    by blast
  from quoted_re_first_match [OF this] obtain b where b: "m = 0x22 # b @ [0x22]" "0x22 \<notin> set b"
    by blast
  from b(1) have "butlast (tl m) = b" by simp
  with v replace_without_quote [OF b(2)] have "v = Str b" by simp
  with b(2) show ?thesis by blast
qed

section \<open>The summary of a serialised document\<close>

text \<open>
  In the text of a document of type \<open>SportsNews\<close> the pattern for the summary matches
  nowhere before the member \<open>summary\<close>: a quote inside a string stands after a backslash,
  a string that is a value is followed by a comma or a closing bracket or brace, and no other
  key ends with the text \<open>summary\<close>.
\<close>

lemma json_ws_space: "is_json_ws u \<Longrightarrow> is_space u"
  by (auto simp: is_json_ws_def is_space_def)

lemma json_ws_not_quote: "is_json_ws u \<Longrightarrow> u \<noteq> 0x22"
  by (auto simp: is_json_ws_def)

lemma clean_Nil: "clean [] z"
  by (simp add: clean_def)

lemma clean_Cons: "clean (u # x) z \<longleftrightarrow> \<not> hit (u # x @ z) \<and> clean x z"
  by (simp add: clean_def All_less_Suc2)

lemma clean_append: "clean (x @ y) z \<longleftrightarrow> clean x (y @ z) \<and> clean y z"
  by (induction x) (auto simp: clean_Nil clean_Cons)

lemma hit_quote: "hit (u # t) \<Longrightarrow> u = 0x22"
  by (auto simp: hit_def)

lemma hit_summary: "hit (0x22 # t) \<Longrightarrow> \<exists>w r. t = js ''summary'' @ 0x22 # w @ 0x3A # r \<and> (\<forall>u\<in>set w. is_space u)"
  by (auto simp: hit_def)

lemma clean_no_quote: "0x22 \<notin> set x \<Longrightarrow> clean x z"
  by (induction x) (auto simp: clean_Nil clean_Cons dest: hit_quote)

lemma clean_ws: "\<forall>u\<in>set w. is_json_ws u \<Longrightarrow> clean w z"
  by (rule clean_no_quote) (auto dest: json_ws_not_quote)

lemma clean_unit: "u \<noteq> 0x22 \<Longrightarrow> clean (u # x) z \<longleftrightarrow> clean x z"
  by (auto simp: clean_Cons dest: hit_quote)

lemma fol_hd: "fol (a # t) \<Longrightarrow> is_json_ws a \<or> a = 0x2C \<or> a = 0x5D \<or> a = 0x7D"
  unfolding fol_def
proof (elim exE conjE)
  fix w u y
  assume "a # t = w @ u # y" "\<forall>x\<in>set w. is_json_ws x" "u = 0x2C \<or> u = 0x5D \<or> u = 0x7D"
  then show ?thesis by (cases w) auto
qed

lemma fol_not_Nil: "\<not> fol []"
  by (simp add: fol_def)

lemma fol_tl: "fol (a # t) \<Longrightarrow> is_json_ws a \<Longrightarrow> fol t"
  unfolding fol_def
proof (elim exE conjE)
  fix w u y
  assume a: "is_json_ws a" "a # t = w @ u # y" "\<forall>x\<in>set w. is_json_ws x" "u = 0x2C \<or> u = 0x5D \<or> u = 0x7D"
  then obtain w' where "w = a # w'" by (cases w) (auto simp: is_json_ws_def)
  with a have "t = w' @ u # y \<and> (\<forall>x\<in>set w'. is_json_ws x)" by simp
  with a(4) show "\<exists>w u y. t = w @ u # y \<and> (\<forall>x\<in>set w. is_json_ws x) \<and> (u = 0x2C \<or> u = 0x5D \<or> u = 0x7D)"
    by blast
qed

lemma fol_no_colon: "fol z \<Longrightarrow> \<forall>u\<in>set w. is_space u \<Longrightarrow> z \<noteq> w @ 0x3A # r"
proof (induction w arbitrary: z)
  case Nil
  show ?case
  proof
    assume "z = [] @ 0x3A # r"
    with Nil(1) have "fol (0x3A # r)" by simp
    from fol_hd [OF this] show False by (simp add: is_json_ws_def)
  qed
next
  case (Cons a w)
  show ?case
  proof
    assume z: "z = (a # w) @ 0x3A # r"
    with Cons.prems(1) have f: "fol (a # w @ 0x3A # r)" by simp
    from Cons.prems(2) have sp: "is_space a" by simp
    from fol_hd [OF f] sp have "is_json_ws a" by (auto simp: is_space_def)
    from fol_tl [OF f this] Cons.IH [of "w @ 0x3A # r"] Cons.prems(2) show False by simp
  qed
qed

lemma fol_sep: "u = 0x2C \<or> u = 0x5D \<or> u = 0x7D \<Longrightarrow> fol (u # y)"
  unfolding fol_def by (intro exI [of _ "[]"] exI [of _ u] exI [of _ y]) simp

lemma fol_ws: "\<forall>x\<in>set w. is_json_ws x \<Longrightarrow> fol z \<Longrightarrow> fol (w @ z)"
  unfolding fol_def
proof (elim exE conjE)
  fix w' u y
  assume a: "\<forall>x\<in>set w. is_json_ws x" "z = w' @ u # y" "\<forall>x\<in>set w'. is_json_ws x" "u = 0x2C \<or> u = 0x5D \<or> u = 0x7D"
  then have "w @ z = (w @ w') @ u # y \<and> (\<forall>x\<in>set (w @ w'). is_json_ws x)" by auto
  with a(4) show "\<exists>w' u y. w @ z = w' @ u # y \<and> (\<forall>x\<in>set w'. is_json_ws x) \<and> (u = 0x2C \<or> u = 0x5D \<or> u = 0x7D)"
    by blast
qed

lemma bq_tl: "bq (x # t) \<Longrightarrow> bq t"
  by (cases t) simp_all

lemma bq_drop: "bq t \<Longrightarrow> bq (drop n t)"
proof (induction n arbitrary: t)
  case 0
  then show ?case by simp
next
  case (Suc n)
  then show ?case by (cases t) (auto dest: bq_tl)
qed

lemma bq_append: "bq a \<Longrightarrow> bq b \<Longrightarrow> (b \<noteq> [] \<Longrightarrow> hd b \<noteq> 0x22) \<Longrightarrow> bq (a @ b)"
proof (induction a rule: bq.induct)
  case 1
  then show ?case by simp
next
  case (2 x)
  then show ?case by (cases b) auto
next
  case (3 x y t)
  then show ?case by simp
qed

lemma hex_digit_not_quote: "n < 16 \<Longrightarrow> hex_digit n \<noteq> 0x22"
proof -
  assume "n < 16"
  then have "hex_digit n \<in> set (js ''0123456789abcdef'')"
    unfolding hex_digit_def by (intro nth_mem) (simp add: js_def)
  then show ?thesis by (auto simp: js_def)
qed

lemma esc_unit_hd: "esc_unit u \<noteq> [] \<and> hd (esc_unit u) \<noteq> 0x22"
  by (simp add: esc_unit_def)

lemma bq_esc_unit: "bq (esc_unit u)"
proof (cases "u < 0x20")
  case True
  then have "unat u < 32" by (simp add: word_less_nat_alt)
  then have "unat u div 16 < 16" "unat u mod 16 < 16" by simp_all
  then have "hex_digit (unat u div 16) \<noteq> 0x22" "hex_digit (unat u mod 16) \<noteq> 0x22"
    by (simp_all add: hex_digit_not_quote)
  then show ?thesis by (simp add: esc_unit_def)
next
  case False
  then show ?thesis by (simp add: esc_unit_def)
qed

lemma esc_Cons: "esc (u # s) = esc_unit u @ esc s"
  by (simp add: esc_def)

lemma esc_hd: "esc s \<noteq> [] \<Longrightarrow> hd (esc s) \<noteq> 0x22"
proof (cases s)
  case Nil
  assume "esc s \<noteq> []"
  with Nil show ?thesis by (simp add: esc_def)
next
  case (Cons u t)
  with esc_unit_hd [of u] show ?thesis by (simp add: esc_Cons)
qed

lemma bq_esc: "bq (esc s)"
proof (induction s)
  case Nil
  then show ?case by (simp add: esc_def)
next
  case (Cons u s)
  show ?case unfolding esc_Cons
    by (rule bq_append [OF bq_esc_unit Cons.IH]) (rule esc_hd)
qed

lemma esc_plain: "\<forall>u\<in>set s. u \<noteq> 0x22 \<and> u \<noteq> 0x5C \<and> 0x20 \<le> u \<Longrightarrow> esc s = s"
proof (induction s)
  case Nil
  then show ?case by (simp add: esc_def)
next
  case (Cons u s)
  then have "u \<noteq> 0x22" "u \<noteq> 0x5C" "\<not> u < 0x20" "esc s = s" by auto
  moreover from this(3) have "u \<noteq> 0x08" "u \<noteq> 0x0C" "u \<noteq> 0x0A" "u \<noteq> 0x0D" "u \<noteq> 0x09" by auto
  ultimately show ?case by (simp add: esc_Cons esc_unit_def)
qed

lemma bq_body:
  "l \<noteq> [] \<Longrightarrow> bq e \<Longrightarrow> e @ 0x22 # f = l @ 0x22 # g \<Longrightarrow> 0x22 \<notin> set l \<Longrightarrow> last l \<noteq> 0x5C \<Longrightarrow>
     e = l \<and> f = g"
proof (induction l arbitrary: e rule: list_nonempty_induct)
  case (single x)
  show ?case
  proof (cases e)
    case Nil
    with single show ?thesis by simp
  next
    case (Cons a e')
    show ?thesis
    proof (cases e')
      case Nil
      with Cons single show ?thesis by simp
    next
      case (Cons b e'')
      with \<open>e = a # e'\<close> single show ?thesis by simp
    qed
  qed
next
  case (cons x xs)
  show ?case
  proof (cases e)
    case Nil
    with cons.prems show ?thesis by simp
  next
    case (Cons a e')
    with cons.prems have "bq e'" "e' @ 0x22 # f = xs @ 0x22 # g" "0x22 \<notin> set xs" "last xs \<noteq> 0x5C" "a = x"
      using cons.hyps by (auto dest: bq_tl)
    from cons.IH [OF this(1-4)] \<open>a = x\<close> Cons show ?thesis by simp
  qed
qed

lemma summary_body:
  "bq e \<Longrightarrow> e @ 0x22 # f = js ''summary'' @ 0x22 # g \<Longrightarrow> e = js ''summary'' \<and> f = g"
  by (rule bq_body) (simp_all add: js_def)

lemma clean_quoted: 
  assumes "fol z"
  shows "clean (quoted s) z"
proof -
  have 1: "\<not> hit (0x22 # drop n (esc s) @ 0x22 # z)" for n
  proof
    assume "hit (0x22 # drop n (esc s) @ 0x22 # z)"
    from hit_summary [OF this] obtain w r where
      e: "drop n (esc s) @ 0x22 # z = js ''summary'' @ 0x22 # w @ 0x3A # r" and w: "\<forall>u\<in>set w. is_space u"
      by blast
    from summary_body [OF bq_drop [OF bq_esc] e] have "z = w @ 0x3A # r" by simp
    with fol_no_colon [OF assms w, of r] show False by simp
  qed
  have 2: "clean (esc s) (0x22 # z)"
    unfolding clean_def
  proof (intro allI impI)
    fix i
    assume i: "i < length (esc s)"
    show "\<not> hit (drop i (esc s) @ 0x22 # z)"
    proof
      assume h: "hit (drop i (esc s) @ 0x22 # z)"
      from i have d: "drop i (esc s) = esc s ! i # drop (Suc i) (esc s)"
        by (simp add: Cons_nth_drop_Suc)
      with h have "esc s ! i = 0x22" by (auto dest: hit_quote)
      with h d 1 [of "Suc i"] show False by simp
    qed
  qed
  have 3: "\<not> hit (0x22 # z)"
  proof
    assume "hit (0x22 # z)"
    from hit_summary [OF this] obtain w r where "z = js ''summary'' @ 0x22 # w @ 0x3A # r" by blast
    then have "z = 0x73 # tl z" by (simp add: js_def)
    with assms have "fol (0x73 # tl z)" by simp
    from fol_hd [OF this] show False by (simp add: is_json_ws_def)
  qed
  from 1 [of 0] 2 3 show ?thesis
    by (simp add: quoted_def clean_Cons clean_append clean_Nil)
qed

lemma up_to_first: "x \<notin> set a \<Longrightarrow> x \<notin> set c \<Longrightarrow> a @ x # b = c @ x # d \<Longrightarrow> a = c"
proof (induction a arbitrary: c)
  case Nil
  then show ?case by (cases c) auto
next
  case (Cons y a)
  then show ?case by (cases c) auto
qed

lemma clean_key:
  assumes "simple_key k" and "\<forall>u\<in>set w. is_json_ws u"
  shows "clean (quoted k) (w @ 0x3A # r)"
proof -
  from assms(1) have k: "k \<noteq> js ''summary''" "esc k = k" "0x22 \<notin> set k"
    by (simp_all add: simple_key_def)
  have 1: "\<not> hit (0x22 # k @ 0x22 # w @ 0x3A # r)"
  proof
    assume "hit (0x22 # k @ 0x22 # w @ 0x3A # r)"
    from hit_summary [OF this] obtain w' r' where
      "k @ 0x22 # w @ 0x3A # r = js ''summary'' @ 0x22 # w' @ 0x3A # r'" by blast
    then have e: "k @ 0x22 # w @ 0x3A # r = js ''summary'' @ 0x22 # (w' @ 0x3A # r')" .
    have nq: "0x22 \<notin> set (js ''summary'')" by (simp add: js_def)
    from up_to_first [OF k(3) nq e] have "k = js ''summary''" .
    with k(1) show False ..
  qed
  have 3: "\<not> hit (0x22 # w @ 0x3A # r)"
  proof
    assume "hit (0x22 # w @ 0x3A # r)"
    from hit_summary [OF this] obtain w' r' where
      "w @ 0x3A # r = js ''summary'' @ 0x22 # w' @ 0x3A # r'" by blast
    then have e: "w @ 0x3A # r = 0x73 # tl (w @ 0x3A # r)" by (simp add: js_def)
    show False
    proof (cases w)
      case Nil
      with e show False by simp
    next
      case (Cons a w')
      with e assms(2) have "is_json_ws 0x73" by auto
      then show False by (simp add: is_json_ws_def)
    qed
  qed
  from 1 3 clean_no_quote [OF k(3)] show ?thesis
    by (simp add: quoted_def k(2) clean_Cons clean_append clean_Nil)
qed

lemma string_field_hit:
  assumes "first_match (string_field (js ''summary'')) t = Some mc"
  shows "hit t"
proof -
  obtain m c where mc: "mc = (m, c)" by (cases mc)
  from first_match_mem [OF assms [unfolded mc]] obtain rest where
    mem: "(c, rest) \<in> set (ms (string_field (js ''summary'')) (\<lambda>i. None) t)" by blast
  from mem obtain c1 s1 c2 s2 c3 s3 where
    1: "(c1, s1) \<in> set (ms (Lit (0x22 # js ''summary'' @ [0x22])) (\<lambda>i. None) t)"
    and 2: "(c2, s2) \<in> set (ms (Star True (Cls is_space)) c1 s1)"
    and 3: "(c3, s3) \<in> set (ms (Lit (js '':'')) c2 s2)"
    unfolding string_field_def seqs.simps seq_mem by blast
  from 1 have t: "t = (0x22 # js ''summary'' @ [0x22]) @ s1" by (simp only: lit_mem)
  from star_cls_mem [OF 2] obtain a where a: "s1 = a @ s2" "\<forall>x\<in>set a. is_space x" by blast
  from 3 have "s2 = js '':'' @ s3" by (simp only: lit_mem)
  then have "s2 = 0x3A # s3" by (simp add: js_units)
  with t a show ?thesis unfolding hit_def by (intro exI [of _ a] exI [of _ s3]) simp
qed

lemma no_hit_no_match: "\<not> hit t \<Longrightarrow> first_match (string_field (js ''summary'')) t = None"
  using string_field_hit [of t] by (cases "first_match (string_field (js ''summary'')) t") auto

lemma clean_wrap: "a \<noteq> 0x22 \<Longrightarrow> b \<noteq> 0x22 \<Longrightarrow> clean x (b # z) \<Longrightarrow> clean (a # x @ [b]) z"
  by (simp add: clean_unit clean_append clean_Nil)

lemma clean_padded:
  "\<forall>u\<in>set a. is_json_ws u \<Longrightarrow> \<forall>u\<in>set b. is_json_ws u \<Longrightarrow> clean x (b @ y @ z) \<Longrightarrow> clean y z \<Longrightarrow>
     clean (a @ x @ b @ y) z"
  by (simp add: clean_append clean_ws)

lemma clean_member:
  "simple_key k \<Longrightarrow> \<forall>u\<in>set a. is_json_ws u \<Longrightarrow> \<forall>u\<in>set b. is_json_ws u \<Longrightarrow> clean x z \<Longrightarrow>
     clean (a @ quoted k @ b @ 0x3A # x) z"
  by (simp add: clean_append clean_ws clean_key clean_unit)

lemma layout_ws: "layout_ok lay \<Longrightarrow> \<forall>u\<in>set (lay p r). is_json_ws u"
  by (simp add: layout_ok_def)

lemma clean_text:
  shows "layout_ok lay \<Longrightarrow> keys_ok v \<Longrightarrow> fol z \<Longrightarrow> clean (text_of lay p v) z"
    and "layout_ok lay \<Longrightarrow> \<forall>v\<in>set vs. keys_ok v \<Longrightarrow> fol z \<Longrightarrow> clean (elements lay p i vs) z"
    and "layout_ok lay \<Longrightarrow> \<forall>kv\<in>set kvs. simple_key (fst kv) \<and> keys_ok (snd kv) \<Longrightarrow> fol z \<Longrightarrow>
           clean (members lay p i kvs) z"
proof (induction lay p v and lay p i vs and lay p i kvs arbitrary: z and z and z
    rule: text_of_elements_members.induct)
  case (1 lay p s)
  then show ?case by (simp add: clean_quoted)
next
  case (2 lay p vs)
  have f: "fol (0x5D # z)" by (simp add: fol_sep)
  show ?case
  proof (cases "vs = []")
    case True
    have "clean (0x5B # lay p 4 @ [0x5D]) z"
      by (rule clean_wrap) (simp_all add: clean_ws layout_ws [OF "2.prems"(1)])
    with True show ?thesis by simp
  next
    case False
    from "2.prems"(2) have "\<forall>v\<in>set vs. keys_ok v" by simp
    from "2.IH" [OF False "2.prems"(1) this f]
    have "clean (0x5B # elements lay p 0 vs @ [0x5D]) z"
      by (intro clean_wrap) simp_all
    with False show ?thesis by simp
  qed
next
  case (3 lay p kvs)
  have f: "fol (0x7D # z)" by (simp add: fol_sep)
  show ?case
  proof (cases "kvs = []")
    case True
    have "clean (0x7B # lay p 4 @ [0x7D]) z"
      by (rule clean_wrap) (simp_all add: clean_ws layout_ws [OF "3.prems"(1)])
    with True show ?thesis by simp
  next
    case False
    from "3.prems"(2) have "\<forall>kv\<in>set kvs. simple_key (fst kv) \<and> keys_ok (snd kv)" by simp
    from "3.IH" [OF False "3.prems"(1) this f]
    have "clean (0x7B # members lay p 0 kvs @ [0x7D]) z"
      by (intro clean_wrap) simp_all
    with False show ?thesis by simp
  qed
next
  case (4 lay p i)
  show ?case by (simp add: clean_Nil)
next
  case (5 lay p i v vs)
  note ws = layout_ws [OF "5.prems"(1)]
  from "5.prems"(2) have kv: "keys_ok v" and kvs: "\<forall>v\<in>set vs. keys_ok v" by simp_all
  show ?case
  proof (cases "vs = []")
    case True
    have "fol (lay (p @ [i]) 1 @ [] @ z)" using ws "5.prems"(3) by (simp add: fol_ws)
    from "5.IH"(1) [OF "5.prems"(1) kv this]
    have "clean (lay (p @ [i]) 0 @ text_of lay (p @ [i]) v @ lay (p @ [i]) 1 @ []) z"
      by (intro clean_padded ws clean_Nil)
    with True show ?thesis by simp
  next
    case False
    let ?y = "0x2C # elements lay p (Suc i) vs"
    have "fol (lay (p @ [i]) 1 @ ?y @ z)" using ws by (simp add: fol_ws fol_sep)
    from "5.IH"(1) [OF "5.prems"(1) kv this] "5.IH"(2) [OF False "5.prems"(1) kvs "5.prems"(3)]
    have "clean (lay (p @ [i]) 0 @ text_of lay (p @ [i]) v @ lay (p @ [i]) 1 @ ?y) z"
      by (intro clean_padded ws) (simp_all add: clean_unit)
    with False show ?thesis by simp
  qed
next
  case (6 lay p i)
  show ?case by (simp add: clean_Nil)
next
  case (7 lay p i k v kvs)
  note ws = layout_ws [OF "7.prems"(1)]
  from "7.prems"(2) have sk: "simple_key k" and kv: "keys_ok v"
    and kvs: "\<forall>kv\<in>set kvs. simple_key (fst kv) \<and> keys_ok (snd kv)" by simp_all
  show ?case
  proof (cases "kvs = []")
    case True
    have "fol (lay (p @ [i]) 1 @ [] @ z)" using ws "7.prems"(3) by (simp add: fol_ws)
    from "7.IH"(1) [OF "7.prems"(1) kv this]
    have "clean (lay (p @ [i]) 0 @ text_of lay (p @ [i]) v @ lay (p @ [i]) 1 @ []) z"
      by (intro clean_padded ws clean_Nil)
    then have "clean (lay (p @ [i]) 2 @ quoted k @ lay (p @ [i]) 3 @
        0x3A # lay (p @ [i]) 0 @ text_of lay (p @ [i]) v @ lay (p @ [i]) 1 @ []) z"
      by (intro clean_member sk ws)
    with True show ?thesis by simp
  next
    case False
    let ?y = "0x2C # members lay p (Suc i) kvs"
    have "fol (lay (p @ [i]) 1 @ ?y @ z)" using ws by (simp add: fol_ws fol_sep)
    from "7.IH"(1) [OF "7.prems"(1) kv this] "7.IH"(2) [OF False "7.prems"(1) kvs "7.prems"(3)]
    have "clean (lay (p @ [i]) 0 @ text_of lay (p @ [i]) v @ lay (p @ [i]) 1 @ ?y) z"
      by (intro clean_padded ws) (simp_all add: clean_unit)
    then have "clean (lay (p @ [i]) 2 @ quoted k @ lay (p @ [i]) 3 @
        0x3A # lay (p @ [i]) 0 @ text_of lay (p @ [i]) v @ lay (p @ [i]) 1 @ ?y) z"
      by (intro clean_member sk ws)
    with False show ?thesis by simp
  qed
qed

lemma members_append:
  "a \<noteq> [] \<Longrightarrow> b \<noteq> [] \<Longrightarrow>
     members lay p i (a @ b) = members lay p i a @ 0x2C # members lay p (i + length a) b"
proof (induction a arbitrary: i)
  case Nil
  then show ?case by simp
next
  case (Cons x a)
  obtain k v where x: "x = (k, v)" by (cases x)
  show ?case
  proof (cases "a = []")
    case True
    with x Cons.prems show ?thesis by simp
  next
    case False
    from Cons.IH [OF False Cons.prems(2), of "Suc i"] False x show ?thesis by simp
  qed
qed

lemma stringify_through_summary:
  "stringify lay (DObj (before @ (js ''summary'', DStr s) # after)) =
     through_summary lay before s @ lay [length before] 1 @
     (if after = [] then [] else 0x2C # members lay [] (Suc (length before)) after) @
     0x7D # lay [] 1"
proof (cases "before = []")
  case True
  then show ?thesis by (simp add: stringify_def through_summary_def)
next
  case False
  from members_append [OF False, of "(js ''summary'', DStr s) # after" lay "[]" 0] False
  show ?thesis by (simp add: stringify_def through_summary_def)
qed

lemma simple_keys:
  "simple_key (js ''events'')" "simple_key (js ''barTalk'')" "simple_key (js ''category'')"
  "simple_key (js ''headline'')" "simple_key (js ''description'')"
  "simple_key (js ''significance'')" "simple_key (js ''teams'')" "simple_key (js ''date'')"
  "simple_key (js ''source'')" "simple_key (js ''links'')"
  by (simp_all add: simple_key_def esc_def esc_unit_def js_def)

lemma is_str_keys_ok: "is_str v \<Longrightarrow> keys_ok v"
  by (cases v) simp_all

lemma is_strs_keys_ok: "is_strs v \<Longrightarrow> keys_ok v"
  by (cases v) (auto simp: list_all_iff is_str_keys_ok)

lemma event_member_ok: "event_member (k, v) \<Longrightarrow> simple_key k \<and> keys_ok v"
  by (auto simp: simple_keys is_str_keys_ok is_strs_keys_ok split: if_splits)

lemma SportsEvent_keys_ok: "SportsEvent v \<Longrightarrow> keys_ok v"
proof (cases v)
  case (DObj fs)
  assume "SportsEvent v"
  with DObj have "\<forall>kv\<in>set fs. event_member kv" by (simp add: list_all_iff)
  then have "\<forall>kv\<in>set fs. simple_key (fst kv) \<and> keys_ok (snd kv)"
    using event_member_ok by (metis prod.collapse)
  with DObj show ?thesis by simp
qed simp_all

lemma news_member_ok: "news_member (k, v) \<Longrightarrow> k \<noteq> js ''summary'' \<Longrightarrow> simple_key k \<and> keys_ok v"
  by (auto simp: simple_keys is_strs_keys_ok list_all_iff SportsEvent_keys_ok
      split: if_splits doc.splits)

lemma member_value:
  assumes "distinct (map fst kvs)" and "(k, v) \<in> set kvs"
  shows "get_prop (value_of (DObj kvs)) k = Inr (value_of v)"
proof -
  let ?m = "rev (map (map_prod id value_of) kvs)"
  have "map fst ?m = rev (map fst kvs)" by (simp add: rev_map)
  with assms(1) have "distinct (map fst ?m)" by simp
  moreover from assms(2) have "(k, value_of v) \<in> set ?m" by force
  ultimately have "map_of ?m k = Some (value_of v)" by (rule map_of_is_SomeI)
  then show ?thesis by simp
qed

lemma clean_before_summary:
  assumes "SportsNews (DObj (before @ (js ''summary'', DStr s) # after))" and "layout_ok lay"
  shows "clean (lay [] 0 @ 0x7B # (if before = [] then [] else members lay [] 0 before @ [0x2C]) @
                lay [length before] 2) z"
proof -
  note ws = layout_ws [OF assms(2)]
  from assms(1) have d: "js ''summary'' \<notin> fst ` set before"
    and m: "\<forall>kv\<in>set before. news_member kv"
    by (auto simp: list_all_iff)
  have "simple_key (fst kv) \<and> keys_ok (snd kv)" if "kv \<in> set before" for kv
  proof -
    from that d have "fst kv \<noteq> js ''summary''" by force
    moreover from that m have "news_member (fst kv, snd kv)" by simp
    ultimately show ?thesis by (rule news_member_ok [rotated])
  qed
  then have k: "\<forall>kv\<in>set before. simple_key (fst kv) \<and> keys_ok (snd kv)" by blast
  have "clean (members lay [] 0 before) (0x2C # y)" for y
    by (rule clean_text(3) [OF assms(2) k]) (simp add: fol_sep)
  then show ?thesis by (simp add: clean_append clean_unit clean_ws ws clean_Nil)
qed

lemma summary_at_field:
  assumes "JSON_parse P = Inl e"
    and "P = pre @ (0x22 # js ''summary'' @ [0x22]) @ ws1 @ 0x3A # ws2 @ 0x22 # s @ 0x22 # rest"
    and "clean pre ((0x22 # js ''summary'' @ [0x22]) @ ws1 @ 0x3A # ws2 @ 0x22 # s @ 0x22 # rest)"
    and "\<forall>u\<in>set ws1. is_space u" and "\<forall>u\<in>set ws2. is_space u" and "0x22 \<notin> set s"
  shows "\<exists>r. tryParsePartialJSON P = Inr r \<and> get_prop r (js ''summary'') = Inr (Str s)"
proof -
  let ?t = "(0x22 # js ''summary'' @ [0x22]) @ ws1 @ 0x3A # ws2 @ 0x22 # s @ 0x22 # rest"
  let ?R = "string_field (js ''summary'')"
  have P: "P = pre @ ?t" using assms(2) .
  have skip: "str_match ?R (pre @ ?t) = str_match ?R ?t"
  proof (rule str_match_skip)
    fix i
    assume i: "i < length pre"
    with assms(3) have "\<not> hit (drop i pre @ ?t)" unfolding clean_def by blast
    with i have "\<not> hit (drop i (pre @ ?t))" by simp
    then show "first_match ?R (drop i (pre @ ?t)) = None" by (rule no_hit_no_match)
  qed
  from assms(6) have "\<forall>u\<in>set s. u \<noteq> 0x22" by auto
  from string_field_first_match [OF assms(4,5) this refl, of "js ''summary''" rest]
  obtain m c where fm: "first_match ?R ?t = Some (m, c)" and c1: "c 1 = Some s" by blast
  have "str_match ?R ?t = Some (m, c)" by (rule str_match_here [OF _ fm]) simp
  with skip P have sm: "str_match ?R P = Some (m, c)" by simp
  have es: "extract_summary P = Inr (Str s)"
    using c1 by (simp add: extract_summary_def sm group_def replace_quotes_def
                     replace_without_quote [OF assms(6)])
  from salvage_shape [of P] obtain su evs bt where
    sh: "salvage P = Inr (Obj [(js ''summary'', su), (js ''events'', Arr evs), (js ''barTalk'', Arr bt)])"
    and su: "extract_summary P = Inr su" by blast
  from su es have "su = Str s" by simp
  with tryParse_salvage [OF assms(1) sh] get_prop_salvaged(1) [of su "Arr evs" "Arr bt"]
  show ?thesis
    by (intro exI [of _ "Obj [(js ''summary'', su), (js ''events'', Arr evs), (js ''barTalk'', Arr bt)]"]) simp
qed

section \<open>Evaluation on concrete texts\<close>

text \<open>The equations that evaluate the decoder, the matcher and the salvage on a given text.\<close>

lemmas json_eval = JSON_parse_def parse_value.simps parse_elements.simps parse_members.simps
  skip_ws_def is_json_ws_def js_def parse_literal_def parse_number_def parse_int_def parse_frac_def
  parse_exp_def parse_sign_def is_digit_def digits_val_def scale10_def consc_def escape_char_def
  hex4_def hex_val_def

lemmas regex_eval = ms.simps(7) first_match_def group_def str_match_all_def str_replace_all_def
  is_space_def dot_def any_unit_def not_quote_def not_rbrace_def quoted_body_def string_field_def
  plain_field_def array_field_def event_re_def quoted_re_def replace_quotes_def clear_def

lemmas salvage_eval = extract_summary_def opt_group_def opt_group_replaced_def fallback_event_def
  event_of_def extract_events_def extract_barTalk_def salvage_def jor_def

section \<open>The claims\<close>

text \<open>
  C1. For every text that decodes strictly as one JSON document, \<open>tryParsePartialJSON\<close>
  returns exactly the decoded document: nothing is filtered, defaulted or changed.
\<close>

theorem fast_path_verbatim:
  "JSON_parse text = Inr D \<Longrightarrow> tryParsePartialJSON text = Inr D"
  by (simp add: tryParsePartialJSON_def)

theorem fast_path_verbatim_witness:
  \<open>JSON_parse (js ''{"summary": "NFL week wraps up", "events": [{"headline":"Team A wins","category":"NFL","description":"desc","significance":"High"}], "barTalk": ["Wow"]}'')
     = Inr (Obj [(js ''summary'', Str (js ''NFL week wraps up'')),
                 (js ''events'', Arr [Obj [(js ''headline'', Str (js ''Team A wins'')),
                                           (js ''category'', Str (js ''NFL'')),
                                           (js ''description'', Str (js ''desc'')),
                                           (js ''significance'', Str (js ''High''))]]),
                 (js ''barTalk'', Arr [Str (js ''Wow'')])])
   \<and> tryParsePartialJSON (js ''{"summary": "NFL week wraps up", "events": [{"headline":"Team A wins","category":"NFL","description":"desc","significance":"High"}], "barTalk": ["Wow"]}'')
     = Inr (Obj [(js ''summary'', Str (js ''NFL week wraps up'')),
                 (js ''events'', Arr [Obj [(js ''headline'', Str (js ''Team A wins'')),
                                           (js ''category'', Str (js ''NFL'')),
                                           (js ''description'', Str (js ''desc'')),
                                           (js ''significance'', Str (js ''High''))]]),
                 (js ''barTalk'', Arr [Str (js ''Wow'')])])\<close>
proof -
  have p: \<open>JSON_parse (js ''{"summary": "NFL week wraps up", "events": [{"headline":"Team A wins","category":"NFL","description":"desc","significance":"High"}], "barTalk": ["Wow"]}'')
     = Inr (Obj [(js ''summary'', Str (js ''NFL week wraps up'')),
                 (js ''events'', Arr [Obj [(js ''headline'', Str (js ''Team A wins'')),
                                           (js ''category'', Str (js ''NFL'')),
                                           (js ''description'', Str (js ''desc'')),
                                           (js ''significance'', Str (js ''High''))]]),
                 (js ''barTalk'', Arr [Str (js ''Wow'')])])\<close>
    by (simp add: json_eval)
  from p fast_path_verbatim [OF p] show ?thesis by (rule conjI)
qed

text \<open>
  C6. For every text, \<open>tryParsePartialJSON\<close> returns a value and never an exception: when
  the strict decode throws, the result is that of the salvage, and \<open>null\<close> where the
  salvage itself would throw.
\<close>

theorem never_throws:
  "(\<exists>v. tryParsePartialJSON text = Inr v) \<and>
   (\<forall>e. JSON_parse text = Inl e \<longrightarrow>
      tryParsePartialJSON text = (case salvage text of Inr v \<Rightarrow> Inr v | Inl e' \<Rightarrow> Inr Null))"
  by (cases "JSON_parse text"; cases "salvage text") (simp_all add: tryParsePartialJSON_def)

theorem never_throws_witness:
  \<open>JSON_parse (js ''{"summary": "x'') = Inl SyntaxError \<and>
   salvage (js ''{"summary": "x'') =
     Inr (Obj [(js ''summary'', Undefined), (js ''events'', Arr []), (js ''barTalk'', Arr [])]) \<and>
   tryParsePartialJSON (js ''{"summary": "x'') =
     Inr (Obj [(js ''summary'', Undefined), (js ''events'', Arr []), (js ''barTalk'', Arr [])])\<close>
proof -
  have p: \<open>JSON_parse (js ''{"summary": "x'') = Inl SyntaxError\<close>
    by (simp add: json_eval)
  have s: \<open>salvage (js ''{"summary": "x'') =
     Inr (Obj [(js ''summary'', Undefined), (js ''events'', Arr []), (js ''barTalk'', Arr [])])\<close>
    by (simp add: js_def regex_eval salvage_eval)
  from never_throws [of \<open>js ''{"summary": "x''\<close>] p
  have \<open>tryParsePartialJSON (js ''{"summary": "x'') =
      (case salvage (js ''{"summary": "x'') of Inr v \<Rightarrow> Inr v | Inl e' \<Rightarrow> Inr Null)\<close>
    by blast
  with p s show ?thesis by simp
qed

text \<open>
  C10. On every text whose strict decode fails, the result binds \<open>events\<close> and
  \<open>barTalk\<close> to arrays, whether or not their keys have appeared in the text; only
  \<open>summary\<close> can be absent, and it is a string otherwise.
\<close>

theorem salvage_binds_arrays:
  assumes "JSON_parse text = Inl e"
  shows "\<exists>s evs bt. tryParsePartialJSON text =
            Inr (Obj [(js ''summary'', s), (js ''events'', Arr evs), (js ''barTalk'', Arr bt)])
          \<and> (s = Undefined \<or> (\<exists>x. s = Str x))"
proof -
  from salvage_shape [of "text"] obtain s evs bt where
    sh: "salvage text = Inr (Obj [(js ''summary'', s), (js ''events'', Arr evs), (js ''barTalk'', Arr bt)])"
    and su: "extract_summary text = Inr s"
    by blast
  from extract_summary_total [of "text"] su have "s = Undefined \<or> (\<exists>x. s = Str x)" by auto
  with tryParse_salvage [OF assms sh] show ?thesis by blast
qed

theorem salvage_binds_arrays_witness:
  \<open>JSON_parse (js ''{"summ'') = Inl SyntaxError \<and>
   tryParsePartialJSON (js ''{"summ'') =
     Inr (Obj [(js ''summary'', Undefined), (js ''events'', Arr []), (js ''barTalk'', Arr [])])\<close>
proof -
  have p: \<open>JSON_parse (js ''{"summ'') = Inl SyntaxError\<close>
    by (simp add: json_eval)
  have s: \<open>salvage (js ''{"summ'') =
     Inr (Obj [(js ''summary'', Undefined), (js ''events'', Arr []), (js ''barTalk'', Arr [])])\<close>
    by (simp add: js_def regex_eval salvage_eval)
  from salvage_binds_arrays [OF p] obtain su evs bt where
    \<open>tryParsePartialJSON (js ''{"summ'') =
       Inr (Obj [(js ''summary'', su), (js ''events'', Arr evs), (js ''barTalk'', Arr bt)])\<close>
    by blast
  moreover have \<open>tryParsePartialJSON (js ''{"summ'') =
     Inr (Obj [(js ''summary'', Undefined), (js ''events'', Arr []), (js ''barTalk'', Arr [])])\<close>
    using p s by (rule tryParse_salvage)
  ultimately show ?thesis using p by simp
qed

text \<open>
  C9, as the code has it. The claim that the result is never \<open>null\<close> fails on the
  text \<open>null\<close>: it decodes strictly, and the decoded value is returned as it is.
\<close>

theorem null_result_counterexample:
  "JSON_parse (js ''null'') = Inr Null \<and> tryParsePartialJSON (js ''null'') = Inr Null"
  by (simp add: json_eval tryParsePartialJSON_def)

text \<open>
  C9, amended. For every text the Recoverer returns a value; the value is \<open>null\<close>
  exactly when the text decodes strictly to \<open>null\<close>; when the strict decode fails,
  no step of the salvage throws, so the branch that returns \<open>null\<close> is never taken
  and the result is the salvaged object; on the empty text this object has no summary and
  two empty arrays.
\<close>

theorem recoverer_total:
  "(\<exists>v. tryParsePartialJSON text = Inr v)
   \<and> (tryParsePartialJSON text = Inr Null \<longleftrightarrow> JSON_parse text = Inr Null)
   \<and> (\<forall>e. JSON_parse text = Inl e \<longrightarrow>
         (\<exists>v. salvage text = Inr v \<and> tryParsePartialJSON text = Inr v))
   \<and> tryParsePartialJSON [] =
        Inr (Obj [(js ''summary'', Undefined), (js ''events'', Arr []), (js ''barTalk'', Arr [])])"
proof -
  from salvage_shape [of "text"] obtain s evs bt where
    sh: "salvage text = Inr (Obj [(js ''summary'', s), (js ''events'', Arr evs), (js ''barTalk'', Arr bt)])"
    by blast
  have 1: "\<exists>v. tryParsePartialJSON text = Inr v"
    by (cases "JSON_parse text") (simp_all add: tryParsePartialJSON_def sh)
  have 2: "tryParsePartialJSON text = Inr Null \<longleftrightarrow> JSON_parse text = Inr Null"
    by (cases "JSON_parse text") (simp_all add: tryParsePartialJSON_def sh)
  have 3: "\<forall>e. JSON_parse text = Inl e \<longrightarrow>
         (\<exists>v. salvage text = Inr v \<and> tryParsePartialJSON text = Inr v)"
    by (simp add: tryParsePartialJSON_def sh)
  have 4: "tryParsePartialJSON [] =
        Inr (Obj [(js ''summary'', Undefined), (js ''events'', Arr []), (js ''barTalk'', Arr [])])"
    by (simp add: json_eval tryParsePartialJSON_def regex_eval salvage_eval)
  from 1 2 3 4 show ?thesis by blast
qed

theorem recoverer_total_witness:
  \<open>JSON_parse (js ''{"a'') = Inl SyntaxError \<and>
   (\<exists>v. salvage (js ''{"a'') = Inr v \<and> tryParsePartialJSON (js ''{"a'') = Inr v) \<and>
   tryParsePartialJSON (js ''{"a'') \<noteq> Inr Null\<close>
proof -
  have p: \<open>JSON_parse (js ''{"a'') = Inl SyntaxError\<close>
    by (simp add: json_eval)
  from recoverer_total [of \<open>js ''{"a''\<close>] p show ?thesis by auto
qed

text \<open>
  C2, as the code has it. The claim that no returned event has the headline
  \<open>Loading...\<close> fails on a complete document: the strict decode is returned as it
  is, with such an event in it.
\<close>

theorem fast_path_keeps_sentinel_counterexample:
  \<open>tryParsePartialJSON (js ''{"summary": "x", "events": [{"headline":"Loading...","category":"NFL","description":"d","significance":"Low"}], "barTalk": []}'')
     = Inr (Obj [(js ''summary'', Str (js ''x'')),
                 (js ''events'', Arr [Obj [(js ''headline'', Str (js ''Loading...'')),
                                           (js ''category'', Str (js ''NFL'')),
                                           (js ''description'', Str (js ''d'')),
                                           (js ''significance'', Str (js ''Low''))]]),
                 (js ''barTalk'', Arr [])])
   \<and> get_prop (Obj [(js ''headline'', Str (js ''Loading...'')),
                   (js ''category'', Str (js ''NFL'')),
                   (js ''description'', Str (js ''d'')),
                   (js ''significance'', Str (js ''Low''))]) (js ''headline'')
     = Inr (Str (js ''Loading...''))\<close>
  by (simp add: json_eval tryParsePartialJSON_def)

text \<open>
  C2, amended. On every text whose strict decode fails, no event of the returned
  \<open>events\<close> array has the headline \<open>Loading...\<close>.
\<close>

theorem salvage_filters_sentinel:
  assumes "JSON_parse text = Inl e"
  shows "\<exists>r evs. tryParsePartialJSON text = Inr r
           \<and> get_prop r (js ''events'') = Inr (Arr evs)
           \<and> (\<forall>ev\<in>set evs. get_prop ev (js ''headline'') \<noteq> Inr (Str (js ''Loading...'')))"
proof -
  from salvage_shape [of "text"] obtain s evs bt where
    sh: "salvage text = Inr (Obj [(js ''summary'', s), (js ''events'', Arr evs), (js ''barTalk'', Arr bt)])"
    and ev: "extract_events text = Inr evs"
    by blast
  from extract_events_total [of "text"] ev
  have "\<forall>ev\<in>set evs. get_prop ev (js ''headline'') \<noteq> Inr (Str (js ''Loading...''))" by auto
  with tryParse_salvage [OF assms sh] get_prop_salvaged(2) [of s "Arr evs" "Arr bt"]
  show ?thesis by blast
qed

theorem salvage_filters_sentinel_witness:
  \<open>JSON_parse (js ''{"events":[{"headline":"Loading..."},{"headline":"B"}]'') = Inl SyntaxError \<and>
   tryParsePartialJSON (js ''{"events":[{"headline":"Loading..."},{"headline":"B"}]'') =
     Inr (Obj [(js ''summary'', Undefined),
               (js ''events'', Arr [Obj [(js ''headline'', Str (js ''B''))]]),
               (js ''barTalk'', Arr [])])\<close>
proof -
  have p: \<open>JSON_parse (js ''{"events":[{"headline":"Loading..."},{"headline":"B"}]'') = Inl SyntaxError\<close>
    by (simp add: json_eval)
  have s: \<open>salvage (js ''{"events":[{"headline":"Loading..."},{"headline":"B"}]'') =
     Inr (Obj [(js ''summary'', Undefined),
               (js ''events'', Arr [Obj [(js ''headline'', Str (js ''B''))]]),
               (js ''barTalk'', Arr [])])\<close>
    by (simp add: json_eval regex_eval salvage_eval)
  from salvage_filters_sentinel [OF p] obtain r evs where
    \<open>tryParsePartialJSON (js ''{"events":[{"headline":"Loading..."},{"headline":"B"}]'') = Inr r\<close>
    by blast
  moreover have \<open>tryParsePartialJSON (js ''{"events":[{"headline":"Loading..."},{"headline":"B"}]'') =
     Inr (Obj [(js ''summary'', Undefined),
               (js ''events'', Arr [Obj [(js ''headline'', Str (js ''B''))]]),
               (js ''barTalk'', Arr [])])\<close>
    using p s by (rule tryParse_salvage)
  ultimately show ?thesis using p by simp
qed

text \<open>
  C5. At the end of the stream \<open>handleSportsSearch\<close> either accepts the recovered
  value or throws the error \<open>Failed to parse complete structured response\<close>. It
  accepts only if \<open>summary\<close>, \<open>events\<close> and \<open>barTalk\<close> are all
  present, and it throws whenever one of them is not; in particular it throws on a text
  that is valid JSON without a \<open>barTalk\<close> member.
\<close>

theorem completeness_check:
  assumes "tryParsePartialJSON text = Inr v"
  shows "(handleSportsSearch_final text = Inr v \<or>
          handleSportsSearch_final text =
            Inl (Error (js ''Failed to parse complete structured response'')))
     \<and> (handleSportsSearch_final text = Inr v \<longrightarrow>
          present v (js ''summary'') \<and> present v (js ''events'') \<and> present v (js ''barTalk''))
     \<and> (\<not> (present v (js ''summary'') \<and> present v (js ''events'') \<and> present v (js ''barTalk''))
          \<longrightarrow> handleSportsSearch_final text =
            Inl (Error (js ''Failed to parse complete structured response'')))
     \<and> (\<forall>kvs. JSON_parse text = Inr (Obj kvs) \<and> js ''barTalk'' \<notin> fst ` set kvs \<longrightarrow>
          handleSportsSearch_final text =
            Inl (Error (js ''Failed to parse complete structured response'')))"
proof -
  from complete_total [of v] obtain b where b: "complete v = Inr b"
    and pb: "b \<longrightarrow> present v (js ''summary'') \<and> present v (js ''events'') \<and> present v (js ''barTalk'')"
    by blast
  have h: "handleSportsSearch_final text =
      (if b then Inr v else Inl (Error (js ''Failed to parse complete structured response'')))"
    by (simp add: handleSportsSearch_final_def assms b)
  have 4: "handleSportsSearch_final text =
            Inl (Error (js ''Failed to parse complete structured response''))"
    if "JSON_parse text = Inr (Obj kvs)" and "js ''barTalk'' \<notin> fst ` set kvs" for kvs
  proof -
    from that(1) assms have "v = Obj kvs" by (simp add: tryParsePartialJSON_def)
    with absent_member [OF that(2)] have "\<not> present v (js ''barTalk'')"
      by (simp add: present_def)
    with pb have "\<not> b" by blast
    with h show ?thesis by simp
  qed
  from h pb 4 show ?thesis by (cases b) auto
qed

theorem completeness_check_witness:
  \<open>tryParsePartialJSON (js ''{"summary": "x", "events": []}'') =
      Inr (Obj [(js ''summary'', Str (js ''x'')), (js ''events'', Arr [])])
   \<and> handleSportsSearch_final (js ''{"summary": "x", "events": []}'') =
      Inl (Error (js ''Failed to parse complete structured response''))
   \<and> tryParsePartialJSON (js ''{"summary": "x", "events": [], "barTalk": []}'') =
      Inr (Obj [(js ''summary'', Str (js ''x'')), (js ''events'', Arr []), (js ''barTalk'', Arr [])])
   \<and> handleSportsSearch_final (js ''{"summary": "x", "events": [], "barTalk": []}'') =
      Inr (Obj [(js ''summary'', Str (js ''x'')), (js ''events'', Arr []), (js ''barTalk'', Arr [])])\<close>
proof -
  have p1: \<open>JSON_parse (js ''{"summary": "x", "events": []}'') =
      Inr (Obj [(js ''summary'', Str (js ''x'')), (js ''events'', Arr [])])\<close>
    by (simp add: json_eval)
  then have t1: \<open>tryParsePartialJSON (js ''{"summary": "x", "events": []}'') =
      Inr (Obj [(js ''summary'', Str (js ''x'')), (js ''events'', Arr [])])\<close>
    by (simp add: tryParsePartialJSON_def)
  have k: "js ''barTalk'' \<notin> fst ` set [(js ''summary'', Str (js ''x'')), (js ''events'', Arr [])]"
    by (simp add: js_keys_distinct)
  from completeness_check [OF t1] p1 k
  have h1: \<open>handleSportsSearch_final (js ''{"summary": "x", "events": []}'') =
      Inl (Error (js ''Failed to parse complete structured response''))\<close>
    by blast
  have p2: \<open>JSON_parse (js ''{"summary": "x", "events": [], "barTalk": []}'') =
      Inr (Obj [(js ''summary'', Str (js ''x'')), (js ''events'', Arr []), (js ''barTalk'', Arr [])])\<close>
    by (simp add: json_eval)
  then have t2: \<open>tryParsePartialJSON (js ''{"summary": "x", "events": [], "barTalk": []}'') =
      Inr (Obj [(js ''summary'', Str (js ''x'')), (js ''events'', Arr []), (js ''barTalk'', Arr [])])\<close>
    by (simp add: tryParsePartialJSON_def)
  have h2: \<open>handleSportsSearch_final (js ''{"summary": "x", "events": [], "barTalk": []}'') =
      Inr (Obj [(js ''summary'', Str (js ''x'')), (js ''events'', Arr []), (js ''barTalk'', Arr [])])\<close>
    by (simp add: handleSportsSearch_final_def t2 complete_def get_prop_salvaged) (simp add: js_def)
  from t1 h1 t2 h2 show ?thesis by simp
qed

text \<open>
  C7. When the strict decode of an event span throws, the record is built field by field:
  where the pattern of a field finds no value in the span (as when the quoted key does not
  occur in it, lemmas \<open>absent_key_plain_field\<close> and \<open>absent_key_string_field\<close>),
  the category is \<open>Other\<close>, the headline \<open>Loading...\<close>, the description
  \<open>Loading...\<close> and the significance \<open>Medium\<close>; a record whose headline is
  \<open>Loading...\<close> is dropped by the filter.
\<close>

theorem fallback_defaults:
  assumes "JSON_parse eventStr = Inl e"
  shows "\<exists>c h d g.
      event_of eventStr =
        Inr (Obj [(js ''category'', c), (js ''headline'', h), (js ''description'', d),
                  (js ''significance'', g)])
    \<and> (str_match (plain_field (js ''category'')) eventStr = None \<longrightarrow> c = Str (js ''Other''))
    \<and> (str_match (string_field (js ''headline'')) eventStr = None \<longrightarrow> h = Str (js ''Loading...''))
    \<and> (str_match (string_field (js ''description'')) eventStr = None
          \<longrightarrow> d = Str (js ''Loading...''))
    \<and> (str_match (plain_field (js ''significance'')) eventStr = None \<longrightarrow> g = Str (js ''Medium''))
    \<and> (h = Str (js ''Loading...'') \<longrightarrow>
          filter_events [Obj [(js ''category'', c), (js ''headline'', h), (js ''description'', d),
                              (js ''significance'', g)]] = Inr [])"
proof -
  obtain h0 where h0: "opt_group_replaced (str_match (string_field (js ''headline'')) eventStr) = Inr h0"
    using opt_group_replaced_total by blast
  obtain d0 where d0: "opt_group_replaced (str_match (string_field (js ''description'')) eventStr) = Inr d0"
    using opt_group_replaced_total by blast
  let ?c = "jor (opt_group (str_match (plain_field (js ''category'')) eventStr)) (Str (js ''Other''))"
  let ?h = "jor h0 (Str (js ''Loading...''))"
  let ?d = "jor d0 (Str (js ''Loading...''))"
  let ?g = "jor (opt_group (str_match (plain_field (js ''significance'')) eventStr)) (Str (js ''Medium''))"
  have ev: "event_of eventStr = Inr (Obj [(js ''category'', ?c), (js ''headline'', ?h),
      (js ''description'', ?d), (js ''significance'', ?g)])"
    by (simp add: event_of_def assms fallback_event_def Let_def h0 d0)
  have c: "str_match (plain_field (js ''category'')) eventStr = None \<longrightarrow> ?c = Str (js ''Other'')"
    by (simp add: opt_group_def jor_def)
  have g: "str_match (plain_field (js ''significance'')) eventStr = None \<longrightarrow> ?g = Str (js ''Medium'')"
    by (simp add: opt_group_def jor_def)
  have h: "str_match (string_field (js ''headline'')) eventStr = None \<longrightarrow> ?h = Str (js ''Loading...'')"
    using h0 by (auto simp: opt_group_replaced_def jor_def)
  have d: "str_match (string_field (js ''description'')) eventStr = None \<longrightarrow> ?d = Str (js ''Loading...'')"
    using d0 by (auto simp: opt_group_replaced_def jor_def)
  have f: "?h = Str (js ''Loading...'') \<longrightarrow>
       filter_events [Obj [(js ''category'', ?c), (js ''headline'', ?h), (js ''description'', ?d),
                           (js ''significance'', ?g)]] = Inr []"
    by (simp add: get_prop_fallback_headline del: get_prop.simps)
  show ?thesis
    by (rule exI [of _ ?c], rule exI [of _ ?h], rule exI [of _ ?d], rule exI [of _ ?g])
       (intro conjI ev c h d g f)
qed

theorem fallback_defaults_witness:
  \<open>JSON_parse (js ''{"headline":"B" x}'') = Inl SyntaxError \<and>
   event_of (js ''{"headline":"B" x}'') =
     Inr (Obj [(js ''category'', Str (js ''Other'')), (js ''headline'', Str (js ''B'')),
               (js ''description'', Str (js ''Loading...'')),
               (js ''significance'', Str (js ''Medium''))]) \<and>
   JSON_parse (js ''{"headline":7x}'') = Inl SyntaxError \<and>
   event_of (js ''{"headline":7x}'') =
     Inr (Obj [(js ''category'', Str (js ''Other'')), (js ''headline'', Str (js ''Loading...'')),
               (js ''description'', Str (js ''Loading...'')),
               (js ''significance'', Str (js ''Medium''))]) \<and>
   filter_events [Obj [(js ''category'', Str (js ''Other'')),
                       (js ''headline'', Str (js ''Loading...'')),
                       (js ''description'', Str (js ''Loading...'')),
                       (js ''significance'', Str (js ''Medium''))]] = Inr []\<close>
proof -
  have p1: \<open>JSON_parse (js ''{"headline":"B" x}'') = Inl SyntaxError\<close>
    by (simp add: json_eval)
  have e1: \<open>event_of (js ''{"headline":"B" x}'') =
     Inr (Obj [(js ''category'', Str (js ''Other'')), (js ''headline'', Str (js ''B'')),
               (js ''description'', Str (js ''Loading...'')),
               (js ''significance'', Str (js ''Medium''))])\<close>
    by (simp add: json_eval regex_eval salvage_eval)
  have p2: \<open>JSON_parse (js ''{"headline":7x}'') = Inl SyntaxError\<close>
    by (simp add: json_eval)
  have n: \<open>str_match (plain_field (js ''category'')) (js ''{"headline":7x}'') = None\<close>
    \<open>str_match (string_field (js ''headline'')) (js ''{"headline":7x}'') = None\<close>
    \<open>str_match (string_field (js ''description'')) (js ''{"headline":7x}'') = None\<close>
    \<open>str_match (plain_field (js ''significance'')) (js ''{"headline":7x}'') = None\<close>
    by (simp_all add: js_def regex_eval)
  from fallback_defaults [OF p2] n
  have e2: \<open>event_of (js ''{"headline":7x}'') =
     Inr (Obj [(js ''category'', Str (js ''Other'')), (js ''headline'', Str (js ''Loading...'')),
               (js ''description'', Str (js ''Loading...'')),
               (js ''significance'', Str (js ''Medium''))]) \<and>
   filter_events [Obj [(js ''category'', Str (js ''Other'')),
                       (js ''headline'', Str (js ''Loading...'')),
                       (js ''description'', Str (js ''Loading...'')),
                       (js ''significance'', Str (js ''Medium''))]] = Inr []\<close>
    by auto
  from p1 e1 p2 e2 show ?thesis by simp
qed

text \<open>
  C4, as the code has it. The claim that \<open>events\<close> is empty as long as the text holds
  no balanced span \<open>{...}\<close> with the key \<open>headline\<close> fails on
  \<open>{"events":[{"headline":"x","y":{}\<close>. The strict decode fails, the key
  \<open>events\<close> has appeared, the only balanced span is \<open>{}\<close>, and the event object
  is still open. Yet the pattern of line 42 matches from the opening brace of the event to
  the first closing brace, which closes the inner object; the span does not decode, the
  fallback of lines 48 to 57 reads the headline \<open>x\<close> from it, and the result has one
  event.
\<close>

theorem open_span_counterexample:
  \<open>JSON_parse (js ''{"events":[{"headline":"x","y":{}'') = Inl SyntaxError \<and>
   sublist (0x22 # js ''events'' @ [0x22]) (js ''{"events":[{"headline":"x","y":{}'') \<and>
   balanced_spans (js ''{"events":[{"headline":"x","y":{}'') = [js ''{}''] \<and>
   complete_event_objects (js ''{"events":[{"headline":"x","y":{}'') = [] \<and>
   tryParsePartialJSON (js ''{"events":[{"headline":"x","y":{}'') =
     Inr (Obj [(js ''summary'', Undefined),
               (js ''events'', Arr [Obj [(js ''category'', Str (js ''Other'')),
                                         (js ''headline'', Str (js ''x'')),
                                         (js ''description'', Str (js ''Loading...'')),
                                         (js ''significance'', Str (js ''Medium''))]]),
               (js ''barTalk'', Arr [])])\<close>
proof -
  have p: \<open>JSON_parse (js ''{"events":[{"headline":"x","y":{}'') = Inl SyntaxError\<close>
    by (simp add: json_eval)
  have k: \<open>sublist (0x22 # js ''events'' @ [0x22]) (js ''{"events":[{"headline":"x","y":{}'')\<close>
    by (simp add: js_def sublist_code)
  have b: \<open>balanced_spans (js ''{"events":[{"headline":"x","y":{}'') = [js ''{}'']\<close>
    by (simp add: js_def)
  have n: \<open>complete_event_objects (js ''{"events":[{"headline":"x","y":{}'') = []\<close>
    by (simp add: complete_event_objects_def b) (simp add: js_def sublist_code)
  have s: \<open>salvage (js ''{"events":[{"headline":"x","y":{}'') =
     Inr (Obj [(js ''summary'', Undefined),
               (js ''events'', Arr [Obj [(js ''category'', Str (js ''Other'')),
                                         (js ''headline'', Str (js ''x'')),
                                         (js ''description'', Str (js ''Loading...'')),
                                         (js ''significance'', Str (js ''Medium''))]]),
               (js ''barTalk'', Arr [])])\<close>
    by (simp add: json_eval regex_eval salvage_eval)
  from p k b n tryParse_salvage [OF p s] show ?thesis by simp
qed

text \<open>
  C4, amended. When the strict decode fails and the text holds no piece of the shape the
  pattern of line 42 looks for, that is an opening brace, the quoted key \<open>headline\<close>
  and a closing brace with no other closing brace in between, the returned \<open>events\<close>
  is the empty array. This holds whether or not the \<open>events\<close> key has appeared.
\<close>

theorem no_complete_event_no_events:
  assumes "JSON_parse text = Inl e"
    and "\<forall>a b. 0x7D \<notin> set a \<and> 0x7D \<notin> set b \<longrightarrow>
             \<not> sublist (0x7B # a @ (0x22 # js ''headline'' @ [0x22]) @ b @ [0x7D]) text"
  shows "\<exists>s bt. tryParsePartialJSON text =
           Inr (Obj [(js ''summary'', s), (js ''events'', Arr []), (js ''barTalk'', Arr bt)])"
proof -
  from salvage_shape [of "text"] obtain s evs bt where
    sh: "salvage text = Inr (Obj [(js ''summary'', s), (js ''events'', Arr evs), (js ''barTalk'', Arr bt)])"
    and ev: "extract_events text = Inr evs"
    by blast
  have "extract_events text = Inr []"
  proof (cases "str_match (array_field (js ''events'')) text")
    case None
    then show ?thesis by (simp add: extract_events_def)
  next
    case (Some m)
    from array_field_group [OF Some] obtain g where g: "group m 1 = Str g" ..
    from str_match_group_sublist [OF Some g] have "sublist g text" .
    from no_span_no_matches [OF assms(2) this] have "str_match_all event_re g = []" .
    then show ?thesis using g by (simp add: extract_events_def Some)
  qed
  with ev have "evs = []" by simp
  with tryParse_salvage [OF assms(1) sh] show ?thesis by blast
qed

theorem no_complete_event_no_events_witness:
  \<open>JSON_parse (js ''{"events": [{"headline":"T'') = Inl SyntaxError \<and>
   (\<exists>s bt. tryParsePartialJSON (js ''{"events": [{"headline":"T'') =
        Inr (Obj [(js ''summary'', s), (js ''events'', Arr []), (js ''barTalk'', Arr bt)]))\<close>
proof -
  have p: \<open>JSON_parse (js ''{"events": [{"headline":"T'') = Inl SyntaxError\<close>
    by (simp add: json_eval)
  have n: \<open>0x7D \<notin> set (js ''{"events": [{"headline":"T'')\<close>
    by (simp add: js_def)
  have \<open>\<forall>a b. 0x7D \<notin> set a \<and> 0x7D \<notin> set b \<longrightarrow>
      \<not> sublist (0x7B # a @ (0x22 # js ''headline'' @ [0x22]) @ b @ [0x7D])
          (js ''{"events": [{"headline":"T'')\<close>
  proof (intro allI impI notI)
    fix a b :: ustring
    assume \<open>sublist (0x7B # a @ (0x22 # js ''headline'' @ [0x22]) @ b @ [0x7D])
          (js ''{"events": [{"headline":"T'')\<close>
    then have \<open>set (0x7B # a @ (0x22 # js ''headline'' @ [0x22]) @ b @ [0x7D])
        \<subseteq> set (js ''{"events": [{"headline":"T'')\<close>
      by (rule set_mono_sublist)
    then have \<open>0x7D \<in> set (js ''{"events": [{"headline":"T'')\<close> by auto
    with n show False ..
  qed
  from no_complete_event_no_events [OF p this] p show ?thesis by simp
qed

text \<open>
  C3, as the code has it. The claim that the salvaged summary of a prefix equals the
  summary of the document fails for a summary written with an escape sequence: the
  document \<open>{"summary":"a\nb","events":[],"barTalk":[]}\<close> has the three-character
  summary a, line feed, b, while the salvage of its prefix cut after \<open>"events":[\<close>
  returns the four characters a, backslash, n, b. The salvage rewrites \<open>\"\<close> only and
  decodes no other escape.
\<close>

theorem summary_escape_counterexample:
  \<open>JSON_parse ((js ''{"summary":"a'' @ [0x5C] @ js ''nb","events":['') @ js ''],"barTalk":[]}'') =
     Inr (Obj [(js ''summary'', Str [0x61, 0x0A, 0x62]), (js ''events'', Arr []),
               (js ''barTalk'', Arr [])]) \<and>
   tryParsePartialJSON (js ''{"summary":"a'' @ [0x5C] @ js ''nb","events":['') =
     Inr (Obj [(js ''summary'', Str [0x61, 0x5C, 0x6E, 0x62]), (js ''events'', Arr []),
               (js ''barTalk'', Arr [])])\<close>
proof -
  have 1: \<open>JSON_parse ((js ''{"summary":"a'' @ [0x5C] @ js ''nb","events":['') @ js ''],"barTalk":[]}'') =
     Inr (Obj [(js ''summary'', Str [0x61, 0x0A, 0x62]), (js ''events'', Arr []),
               (js ''barTalk'', Arr [])])\<close>
    by (simp add: json_eval)
  have p: \<open>JSON_parse (js ''{"summary":"a'' @ [0x5C] @ js ''nb","events":['') = Inl SyntaxError\<close>
    by (simp add: json_eval)
  have s: \<open>salvage (js ''{"summary":"a'' @ [0x5C] @ js ''nb","events":['') =
     Inr (Obj [(js ''summary'', Str [0x61, 0x5C, 0x6E, 0x62]), (js ''events'', Arr []),
               (js ''barTalk'', Arr [])])\<close>
    by (simp add: js_def regex_eval salvage_eval)
  from 1 tryParse_salvage [OF p s] show ?thesis by (rule conjI)
qed

text \<open>
  C3, amended. Let \<open>D\<close> be a document of type \<open>SportsNews\<close> whose member
  \<open>summary\<close> is the string \<open>s\<close>, written after the members \<open>before\<close> and before
  the members \<open>after\<close>, and let \<open>s\<close> need no escape: it has no quote, no backslash and
  no control character. Let \<open>P\<close> be a proper prefix of the text of \<open>D\<close>, under any
  layout of white space, that reaches the closing quote of the value of \<open>summary\<close>, and
  let the strict decode of \<open>P\<close> fail. Then the summary of the result is the summary of
  \<open>D\<close>, which is \<open>s\<close>. The members before \<open>summary\<close> may hold any strings, the
  text \<open>summary\<close> among them.
\<close>

theorem prefix_summary_is_document_summary:
  assumes "SportsNews D"
    and "D = DObj (before @ (js ''summary'', DStr s) # after)"
    and "layout_ok lay"
    and "\<forall>u\<in>set s. u \<noteq> 0x22 \<and> u \<noteq> 0x5C \<and> 0x20 \<le> u"
    and "strict_prefix P (stringify lay D)"
    and "prefix (through_summary lay before s) P"
    and "JSON_parse P = Inl e"
  shows "(\<exists>r. tryParsePartialJSON P = Inr r \<and>
              get_prop r (js ''summary'') = get_prop (value_of D) (js ''summary''))
       \<and> get_prop (value_of D) (js ''summary'') = Inr (Str s)"
proof -
  let ?n = "length before"
  let ?pre = "lay [] 0 @ 0x7B # (if before = [] then [] else members lay [] 0 before @ [0x2C]) @
              lay [?n] 2"
  note ws = layout_ws [OF assms(3)]
  from assms(1,2) have dist: "distinct (map fst (before @ (js ''summary'', DStr s) # after))"
    by simp
  have D: "get_prop (value_of D) (js ''summary'') = Inr (Str s)"
    using member_value [OF dist, of "js ''summary''" "DStr s"] assms(2) by simp
  from assms(4) have q: "quoted s = 0x22 # s @ [0x22]" by (simp add: quoted_def esc_plain)
  have k: "quoted (js ''summary'') = 0x22 # js ''summary'' @ [0x22]"
    by (simp add: quoted_def esc_def esc_unit_def js_def)
  from assms(6) obtain rest where "P = through_summary lay before s @ rest"
    by (auto simp: prefix_def)
  then have P: "P = ?pre @ (0x22 # js ''summary'' @ [0x22]) @ lay [?n] 3 @ 0x3A # lay [?n] 0 @
                     0x22 # s @ 0x22 # rest"
    by (simp add: through_summary_def q k)
  have c: "clean ?pre z" for z
    using clean_before_summary [OF assms(1) [unfolded assms(2)] assms(3)] .
  have "\<forall>u\<in>set (lay [?n] 3). is_space u" "\<forall>u\<in>set (lay [?n] 0). is_space u"
    using ws json_ws_space by blast+
  moreover from assms(4) have "0x22 \<notin> set s" by auto
  ultimately have "\<exists>r. tryParsePartialJSON P = Inr r \<and> get_prop r (js ''summary'') = Inr (Str s)"
    by (rule summary_at_field [OF assms(7) P c])
  with D show ?thesis by simp
qed

theorem prefix_summary_is_document_summary_witness:
  \<open>stringify (\<lambda>p r. if r = 0 \<and> length p = 1 then [0x20] else [])
      (DObj [(js ''barTalk'', DArr [DStr (js ''summary'')]), (js ''summary'', DStr (js ''x'')),
             (js ''events'', DArr [])]) =
     js ''{"barTalk": ["summary"],"summary": "x","events": []}'' \<and>
   JSON_parse (js ''{"barTalk": ["summary"],"summary": "x","events": []}'') =
     Inr (value_of (DObj [(js ''barTalk'', DArr [DStr (js ''summary'')]),
                          (js ''summary'', DStr (js ''x'')), (js ''events'', DArr [])])) \<and>
   JSON_parse (js ''{"barTalk": ["summary"],"summary": "x","events": ['') = Inl SyntaxError \<and>
   (\<exists>r. tryParsePartialJSON (js ''{"barTalk": ["summary"],"summary": "x","events": ['') = Inr r \<and>
        get_prop r (js ''summary'') =
          get_prop (value_of (DObj [(js ''barTalk'', DArr [DStr (js ''summary'')]),
                                    (js ''summary'', DStr (js ''x'')), (js ''events'', DArr [])]))
            (js ''summary'')) \<and>
   get_prop (value_of (DObj [(js ''barTalk'', DArr [DStr (js ''summary'')]),
                             (js ''summary'', DStr (js ''x'')), (js ''events'', DArr [])]))
     (js ''summary'') = Inr (Str (js ''x''))\<close>
proof -
  let ?lay = "\<lambda>(p :: nat list) (r :: nat). if r = 0 \<and> length p = 1 then [0x20 :: unit16] else []"
  let ?before = "[(js ''barTalk'', DArr [DStr (js ''summary'')])]"
  let ?after = "[(js ''events'', DArr [])]"
  let ?D = "DObj [(js ''barTalk'', DArr [DStr (js ''summary'')]), (js ''summary'', DStr (js ''x'')),
                  (js ''events'', DArr [])]"
  have t: \<open>stringify ?lay ?D = js ''{"barTalk": ["summary"],"summary": "x","events": []}''\<close>
    by (simp add: stringify_def quoted_def esc_def esc_unit_def js_def)
  have v: \<open>JSON_parse (js ''{"barTalk": ["summary"],"summary": "x","events": []}'') = Inr (value_of ?D)\<close>
    by (simp add: json_eval)
  have p: \<open>JSON_parse (js ''{"barTalk": ["summary"],"summary": "x","events": ['') = Inl SyntaxError\<close>
    by (simp add: json_eval)
  have 1: "SportsNews ?D" by (simp add: js_def)
  have 2: "?D = DObj (?before @ (js ''summary'', DStr (js ''x'')) # ?after)" by simp
  have 3: "layout_ok ?lay" by (simp add: layout_ok_def is_json_ws_def)
  have 4: "\<forall>u\<in>set (js ''x''). u \<noteq> 0x22 \<and> u \<noteq> 0x5C \<and> 0x20 \<le> u" by (simp add: js_def)
  have 5: \<open>strict_prefix (js ''{"barTalk": ["summary"],"summary": "x","events": ['') (stringify ?lay ?D)\<close>
    unfolding t by (simp add: js_def)
  have 6: \<open>prefix (through_summary ?lay ?before (js ''x''))
             (js ''{"barTalk": ["summary"],"summary": "x","events": ['')\<close>
    by (simp add: through_summary_def quoted_def esc_def esc_unit_def js_def)
  from prefix_summary_is_document_summary [OF 1 2 3 4 5 6 p] t v p show ?thesis
    by (simp add: js_keys_distinct)
qed

text \<open>
  C8, at a failing input. The document \<open>{"barTalk":["a\"b"]}\<close> has the one barTalk
  string a, quote, b. On its prefix without the closing brace the salvage returns the
  string a, backslash: the pattern for a quoted string lets \<open>[^"]*\<close> take the
  backslash and ends the match at the escaped quote, so that the branch for escaped
  characters and the rewriting of \<open>\"\<close> never apply.
\<close>

theorem barTalk_escaped_quote_cut:
  \<open>JSON_parse ((js ''{"barTalk":["a'' @ [0x5C] @ js ''"b"]'') @ js ''}'') =
     Inr (Obj [(js ''barTalk'', Arr [Str [0x61, 0x22, 0x62]])]) \<and>
   tryParsePartialJSON (js ''{"barTalk":["a'' @ [0x5C] @ js ''"b"]'') =
     Inr (Obj [(js ''summary'', Undefined), (js ''events'', Arr []),
               (js ''barTalk'', Arr [Str [0x61, 0x5C]])])\<close>
proof -
  have 1: \<open>JSON_parse ((js ''{"barTalk":["a'' @ [0x5C] @ js ''"b"]'') @ js ''}'') =
     Inr (Obj [(js ''barTalk'', Arr [Str [0x61, 0x22, 0x62]])])\<close>
    by (simp add: json_eval)
  have p: \<open>JSON_parse (js ''{"barTalk":["a'' @ [0x5C] @ js ''"b"]'') = Inl SyntaxError\<close>
    by (simp add: json_eval)
  have s: \<open>salvage (js ''{"barTalk":["a'' @ [0x5C] @ js ''"b"]'') =
     Inr (Obj [(js ''summary'', Undefined), (js ''events'', Arr []),
               (js ''barTalk'', Arr [Str [0x61, 0x5C]])])\<close>
    by (simp add: js_def regex_eval salvage_eval)
  from 1 tryParse_salvage [OF p s] show ?thesis by (rule conjI)
qed



end
